theory Spec2Isabelle
  imports Main "HOL-Library.Multiset" "HOL-Library.Sublist"
begin

section \<open>Strings: the pieces of Go's \<open>strings\<close> package the handlers use\<close>

text \<open>
  \<open>strings.Split(s, ".")\<close>: the labels of \<open>s\<close>; the empty string has the one label
  \<open>""\<close>, and \<open>n\<close> dots give \<open>n + 1\<close> labels.
\<close>

fun splitDot :: "string \<Rightarrow> string list" where
  "splitDot [] = [[]]"
| "splitDot (c # cs) =
     (if c = CHR ''.'' then [] # splitDot cs
      else (case splitDot cs of [] \<Rightarrow> [[c]] | p # ps \<Rightarrow> (c # p) # ps))"

text \<open>\<open>strings.Join(parts, ".")\<close>.\<close>

fun joinDot :: "string list \<Rightarrow> string" where
  "joinDot [] = []"
| "joinDot [p] = p"
| "joinDot (p # q # ps) = p @ CHR ''.'' # joinDot (q # ps)"

text \<open>
  \<open>if strings.HasPrefix(h, "*.") { h = strings.TrimPrefix(h, "*.") }\<close>: one leading
  wildcard label is removed.
\<close>

definition trimWildcard :: "string \<Rightarrow> string" where
  "trimWildcard h = (if take 2 h = ''*.'' then drop 2 h else h)"

text \<open>
  \<open>if strings.HasSuffix(n, ".") { n = strings.TrimSuffix(n, ".") }\<close>: one trailing dot is
  removed.
\<close>

definition trimDot :: "string \<Rightarrow> string" where
  "trimDot n = (if n \<noteq> [] \<and> last n = CHR ''.'' then butlast n else n)"

section \<open>Zone extraction\<close>

text \<open>
  \<open>isOpenShiftStyleDomain\<close>: at least six labels, and a label \<open>apps\<close> at an index
  \<open>i\<close> with \<open>i > 0\<close> and \<open>i < len(parts) - 3\<close>.
\<close>

definition isOpenShiftStyleDomain :: "string list \<Rightarrow> bool" where
  "isOpenShiftStyleDomain parts =
     (if length parts < 6 then False
      else list_ex (\<lambda>(i, part). part = ''apps'' \<and> 0 < i \<and> int i < int (length parts) - 3)
             (enumerate 0 parts))"

text \<open>
  The loop \<open>for i, part := range parts { if part == "apps" { appsIndex = i; break } }\<close>:
  the first index holding \<open>apps\<close>; \<open>None\<close> is the source's \<open>-1\<close>.
\<close>

fun appsIndexFrom :: "nat \<Rightarrow> string list \<Rightarrow> nat option" where
  "appsIndexFrom i [] = None"
| "appsIndexFrom i (p # ps) = (if p = ''apps'' then Some i else appsIndexFrom (Suc i) ps)"

definition appsIndex :: "string list \<Rightarrow> nat option" where
  "appsIndex parts = appsIndexFrom 0 parts"

text \<open>
  \<open>extractOpenShiftZone\<close>. The branch for a missing \<open>apps\<close> slices
  \<open>parts[len(parts)-3:]\<close>; its only caller passes at least six labels.
\<close>

definition extractOpenShiftZone :: "string list \<Rightarrow> string" where
  "extractOpenShiftZone parts =
     (case appsIndex parts of
        None \<Rightarrow> joinDot (drop (length parts - 3) parts)
      | Some a \<Rightarrow> if 0 < a then joinDot (drop (a - 1) parts) else joinDot parts)"

definition isClusterInternalDomain :: "string list \<Rightarrow> bool" where
  "isClusterInternalDomain parts =
     (if length parts < 3 then False
      else (2 \<le> length parts \<and> parts ! (length parts - 2) = ''cluster''
              \<and> parts ! (length parts - 1) = ''local'')
         \<or> (4 \<le> length parts \<and> parts ! (length parts - 4) = ''svc''
              \<and> parts ! (length parts - 2) = ''cluster''
              \<and> parts ! (length parts - 1) = ''local''))"

definition extractClusterInternalZone :: "string list \<Rightarrow> string" where
  "extractClusterInternalZone parts =
     (if 4 \<le> length parts \<and> parts ! (length parts - 4) = ''svc''
      then joinDot (drop (length parts - 4) parts)
      else joinDot (drop (length parts - 3) parts))"

text \<open>\<open>extractDNSZone\<close>: the single-zone extraction, used as the fallback zone.\<close>

definition extractDNSZone :: "string \<Rightarrow> string" where
  "extractDNSZone hostname0 =
     (if hostname0 = [] then []
      else
        let hostname = trimWildcard hostname0;
            parts = splitDot hostname
        in if length parts < 2 then hostname
           else if isOpenShiftStyleDomain parts then extractOpenShiftZone parts
           else if isClusterInternalDomain parts then extractClusterInternalZone parts
           else if 6 \<le> length parts then joinDot (drop (length parts - 4) parts)
           else if 4 \<le> length parts then joinDot (drop (length parts - 3) parts)
           else joinDot (drop (length parts - 2) parts))"

text \<open>
  The candidate zones of \<open>extractHierarchicalZones\<close>, before deduplication.
  OpenShift style: \<open>for i := appsIndex - 1; i < len(parts)-1; i++\<close>, guarded by
  \<open>appsIndex > 0\<close>. Otherwise: \<open>for i := len(parts) - 2; i >= 0; i--\<close> with the inner
  guard \<open>if i < len(parts)-1\<close>.
\<close>

definition candidateZones :: "string list \<Rightarrow> string list" where
  "candidateZones parts =
     (if isOpenShiftStyleDomain parts then
        (case appsIndex parts of
           None \<Rightarrow> []
         | Some a \<Rightarrow>
             if 0 < a
             then map (\<lambda>i. joinDot (drop i parts)) [a - 1 ..< length parts - 1]
             else [])
      else
        map (\<lambda>i. joinDot (drop i parts))
          (filter (\<lambda>i. i < length parts - 1) (rev [0 ..< length parts - 1])))"

text \<open>
  The deduplication loop: \<open>uniqueZones\<close> is the set of zones seen (kept as a list),
  \<open>result\<close> the zones in first-seen order; empty zones are skipped.
\<close>

fun uniqueLoop :: "string list \<Rightarrow> string list \<times> string list \<Rightarrow> string list \<times> string list" where
  "uniqueLoop [] st = st"
| "uniqueLoop (zone # zones) (uniqueZones, result) =
     (if zone \<notin> set uniqueZones \<and> zone \<noteq> []
      then uniqueLoop zones (zone # uniqueZones, result @ [zone])
      else uniqueLoop zones (uniqueZones, result))"

definition extractHierarchicalZones :: "string \<Rightarrow> string list" where
  "extractHierarchicalZones hostname0 =
     (if hostname0 = [] then []
      else
        let hostname = trimWildcard hostname0;
            parts = splitDot hostname
        in if length parts < 2 then [hostname]
           else
             let (uniqueZones, result) = uniqueLoop (candidateZones parts) ([], []);
                 basicZone = extractDNSZone hostname
             in if basicZone \<notin> set uniqueZones \<and> basicZone \<noteq> []
                then result @ [basicZone] else result)"

text \<open>The spec's name for the hierarchical extractor.\<close>

abbreviation zonesFor :: "string \<Rightarrow> string list" where
  "zonesFor \<equiv> extractHierarchicalZones"


section \<open>The resource collection and the graph\<close>

text \<open>
  The fields of the Kubernetes objects that \<open>buildGraph\<close> reads. A pointer field
  (\<open>*string\<close>) is an \<open>option\<close>. A DNSRecord is unstructured: a missing string field
  reads as \<open>""\<close>, and \<open>dnsGatewayLabel\<close> is \<open>Some g\<close> when the labels map exists, has
  the key \<open>gateway.networking.k8s.io/gateway-name\<close> and its value is the string \<open>g\<close>.
\<close>

record Listener =
  listenerName :: string
  listenerHostname :: "string option"
  listenerPort :: int
  listenerProtocol :: string
  listenerTLS :: bool

record GatewayClass =
  gcUID :: string
  gcName :: string

record Gateway =
  gwUID :: string
  gwName :: string
  gwNamespace :: string
  gwClassName :: string
  gwListeners :: "Listener list"

record ParentRef =
  prName :: string
  prNamespace :: "string option"

record BackendRef =
  brName :: string
  brNamespace :: "string option"

record HTTPRoute =
  rtUID :: string
  rtName :: string
  rtNamespace :: string
  rtParentRefs :: "ParentRef list"
  rtHostnames :: "string list"
  rtRules :: "BackendRef list list"

record ReferenceGrant =
  rgUID :: string
  rgName :: string
  rgNamespace :: string

record DNSRecord =
  dnsUID :: string
  dnsMetaName :: string
  dnsNamespace :: string
  dnsSpecName :: string
  dnsGatewayLabel :: "string option"

record Service =
  svcUID :: string
  svcName :: string
  svcNamespace :: string

record ResourceCollection =
  GatewayClasses :: "GatewayClass list"
  Gateways :: "Gateway list"
  HTTPRoutes :: "HTTPRoute list"
  ReferenceGrants :: "ReferenceGrant list"
  DNSRecords :: "DNSRecord list"
  Services :: "Service list"

record ListenerData =
  ldPort :: int
  ldProtocol :: string
  ldHostname :: "string option"
  ldTLS :: bool

record Node =
  nID :: string
  nName :: string
  nType :: string
  nNamespace :: string
  nGroup :: string
  nVersion :: string
  nKind :: string
  nParentID :: "string option"
  nListenerData :: "ListenerData option"
  nHidden :: bool
  nDNSZone :: string
  nHostname :: string

record Link =
  lSource :: nat
  lTarget :: nat
  lType :: string

record DNSZone =
  zName :: string
  zNodes :: "string list"
  zColor :: string

record Graph =
  gNodes :: "Node list"
  gLinks :: "Link list"
  gDNSZones :: "DNSZone list"

section \<open>Nodes and links\<close>

text \<open>\<open>fmt.Sprintf("%d", i)\<close> for an index \<open>i\<close>.\<close>

definition digitChar :: "nat \<Rightarrow> char" where
  "digitChar d = ''0123456789'' ! d"

function showNat :: "nat \<Rightarrow> string" where
  "showNat n = (if n < 10 then [digitChar n] else showNat (n div 10) @ [digitChar (n mod 10)])"
  by pat_completeness auto
termination
  by (relation "measure id") auto

declare showNat.simps [simp del]

text \<open>\<open>fmt.Sprintf("%s-listener-%d", string(gw.UID), i)\<close>.\<close>

definition listenerID :: "string \<Rightarrow> nat \<Rightarrow> string" where
  "listenerID uid i = uid @ ''-listener-'' @ showNat i"

text \<open>
  The builder's state while nodes are emitted: the node and link slices, \<open>nodeMap\<close> and
  \<open>nodeIndex\<close>. Reading \<open>nodeMap[k]\<close> for an absent key gives Go's zero value.
\<close>

record build =
  bNodes :: "Node list"
  bLinks :: "Link list"
  nodeMap :: "string \<rightharpoonup> nat"
  nodeIndex :: nat

definition idx :: "(string \<rightharpoonup> nat) \<Rightarrow> string \<Rightarrow> nat" where
  "idx m k = (case m k of None \<Rightarrow> 0 | Some i \<Rightarrow> i)"

text \<open>
  \<open>graph.Nodes = append(graph.Nodes, node); nodeMap[node.ID] = nodeIndex; nodeIndex++\<close>.
\<close>

definition addNode :: "Node \<Rightarrow> build \<Rightarrow> build" where
  "addNode node b =
     b\<lparr>bNodes := bNodes b @ [node],
       nodeMap := (nodeMap b)(nID node \<mapsto> nodeIndex b),
       nodeIndex := nodeIndex b + 1\<rparr>"

definition addLink :: "Link \<Rightarrow> build \<Rightarrow> build" where
  "addLink link b = b\<lparr>bLinks := bLinks b @ [link]\<rparr>"

definition plainNode :: "string \<Rightarrow> string \<Rightarrow> string \<Rightarrow> string \<Rightarrow> string \<Rightarrow> string \<Rightarrow> Node" where
  "plainNode uid name typ ns grp ver =
     \<lparr>nID = uid, nName = name, nType = typ, nNamespace = ns, nGroup = grp, nVersion = ver,
      nKind = typ, nParentID = None, nListenerData = None, nHidden = False,
      nDNSZone = [], nHostname = []\<rparr>"

definition gatewayClassNode :: "GatewayClass \<Rightarrow> Node" where
  "gatewayClassNode gc =
     plainNode (gcUID gc) (gcName gc) ''GatewayClass'' [] ''gateway.networking.k8s.io'' ''v1''"

definition gatewayNode :: "Gateway \<Rightarrow> Node" where
  "gatewayNode gw =
     plainNode (gwUID gw) (gwName gw) ''Gateway'' (gwNamespace gw)
       ''gateway.networking.k8s.io'' ''v1''"

definition listenerNode :: "Gateway \<Rightarrow> nat \<Rightarrow> Listener \<Rightarrow> Node" where
  "listenerNode gw i listener =
     (let listenerName = (if listenerName listener = [] then ''listener-'' @ showNat i
                          else listenerName listener);
          hostname = (case listenerHostname listener of None \<Rightarrow> [] | Some h \<Rightarrow> h)
      in \<lparr>nID = listenerID (gwUID gw) i, nName = listenerName, nType = ''Listener'',
          nNamespace = gwNamespace gw, nGroup = ''gateway.networking.k8s.io'',
          nVersion = ''v1'', nKind = ''Listener'', nParentID = Some (gwUID gw),
          nListenerData = Some \<lparr>ldPort = listenerPort listener,
                                 ldProtocol = listenerProtocol listener,
                                 ldHostname = (if hostname \<noteq> [] then Some hostname else None),
                                 ldTLS = listenerTLS listener\<rparr>,
          nHidden = False, nDNSZone = [], nHostname = []\<rparr>)"

definition routeNode :: "HTTPRoute \<Rightarrow> Node" where
  "routeNode route =
     plainNode (rtUID route) (rtName route) ''HTTPRoute'' (rtNamespace route)
       ''gateway.networking.k8s.io'' ''v1''"

definition grantNode :: "ReferenceGrant \<Rightarrow> Node" where
  "grantNode grant =
     plainNode (rgUID grant) (rgName grant) ''ReferenceGrant'' (rgNamespace grant)
       ''gateway.networking.k8s.io'' ''v1beta1''"

definition dnsNode :: "DNSRecord \<Rightarrow> Node" where
  "dnsNode dns =
     (plainNode (dnsUID dns) (dnsMetaName dns) ''DNSRecord'' (dnsNamespace dns)
        ''ingress.operator.openshift.io'' ''v1'')\<lparr>nHostname := trimDot (dnsSpecName dns)\<rparr>"

definition serviceNode :: "Service \<Rightarrow> Node" where
  "serviceNode svc =
     plainNode (svcUID svc) (svcName svc) ''Service'' (svcNamespace svc) [] ''v1''"

text \<open>One listener of a gateway: its node, then the \<open>listener\<close> link from the gateway.\<close>

definition addListener :: "Gateway \<Rightarrow> build \<Rightarrow> nat \<times> Listener \<Rightarrow> build" where
  "addListener gw b il =
     (let b1 = addNode (listenerNode gw (fst il) (snd il)) b
      in addLink \<lparr>lSource = idx (nodeMap b1) (gwUID gw),
                  lTarget = idx (nodeMap b1) (listenerID (gwUID gw) (fst il)),
                  lType = ''listener''\<rparr> b1)"

text \<open>
  The \<open>gatewayClassRef\<close> link: the first class whose name is the gateway's class name,
  when that name is not empty.
\<close>

definition classRefLink :: "GatewayClass list \<Rightarrow> Gateway \<Rightarrow> build \<Rightarrow> build" where
  "classRefLink gcs gw b =
     (if gwClassName gw \<noteq> [] then
        (case find (\<lambda>gc. gwClassName gw = gcName gc) gcs of
           None \<Rightarrow> b
         | Some gc \<Rightarrow> addLink \<lparr>lSource = idx (nodeMap b) (gcUID gc),
                                lTarget = idx (nodeMap b) (gwUID gw),
                                lType = ''gatewayClassRef''\<rparr> b)
      else b)"

definition addGateway :: "GatewayClass list \<Rightarrow> build \<Rightarrow> Gateway \<Rightarrow> build" where
  "addGateway gcs b gw =
     classRefLink gcs gw
       (foldl (addListener gw) (addNode (gatewayNode gw) b) (enumerate 0 (gwListeners gw)))"

text \<open>
  The condition under which a parent reference of a route links a gateway, and the loop
  over the gateways for one parent reference.
\<close>

definition parentRefMatches :: "HTTPRoute \<Rightarrow> ParentRef \<Rightarrow> Gateway \<Rightarrow> bool" where
  "parentRefMatches route parentRef gw =
     ((prName parentRef = [] \<or> prName parentRef = gwName gw) \<and>
      (prNamespace parentRef = None \<or> prNamespace parentRef = Some (rtNamespace route)
         \<or> prNamespace parentRef = Some (gwNamespace gw)))"

fun parentRefLoop :: "HTTPRoute \<Rightarrow> ParentRef \<Rightarrow> Gateway list \<Rightarrow> build \<Rightarrow> build" where
  "parentRefLoop route parentRef [] b = b"
| "parentRefLoop route parentRef (gw # gws) b =
     parentRefLoop route parentRef gws
       (if parentRefMatches route parentRef gw
        then addLink \<lparr>lSource = idx (nodeMap b) (gwUID gw),
                      lTarget = idx (nodeMap b) (rtUID route),
                      lType = ''parentRef''\<rparr> b
        else b)"

definition addRoute :: "Gateway list \<Rightarrow> build \<Rightarrow> HTTPRoute \<Rightarrow> build" where
  "addRoute gws b route =
     foldl (\<lambda>b' parentRef. parentRefLoop route parentRef gws b')
       (addNode (routeNode route) b) (rtParentRefs route)"

text \<open>
  The listener loop of a DNSRecord: the first listener whose hostname is the DNS name and
  whose id is in \<open>nodeMap\<close> gives the link (and the loop breaks); \<open>None\<close> is
  \<open>linkedToListener == false\<close>.
\<close>

fun listenerLink :: "(string \<rightharpoonup> nat) \<Rightarrow> string \<Rightarrow> string \<Rightarrow> nat \<Rightarrow> (nat \<times> Listener) list \<Rightarrow> Link option" where
  "listenerLink m uid dnsName target [] = None"
| "listenerLink m uid dnsName target ((i, listener) # rest) =
     (if listenerHostname listener = Some dnsName then
        (case m (listenerID uid i) of
           Some listenerIndex \<Rightarrow>
             Some \<lparr>lSource = listenerIndex, lTarget = target, lType = ''dnsRecord''\<rparr>
         | None \<Rightarrow> listenerLink m uid dnsName target rest)
      else listenerLink m uid dnsName target rest)"

text \<open>
  The links one DNSRecord adds: none without the gateway-name label or without a gateway
  of that name in the record's namespace (the first such gateway is taken, and the loop
  breaks); else the listener link, or the link from the gateway itself.
\<close>

definition dnsLinks :: "Gateway list \<Rightarrow> (string \<rightharpoonup> nat) \<Rightarrow> DNSRecord \<Rightarrow> Link list" where
  "dnsLinks gws m dns =
     (case dnsGatewayLabel dns of
        None \<Rightarrow> []
      | Some gatewayNameStr \<Rightarrow>
          (let dnsName = trimDot (dnsSpecName dns) in
           case find (\<lambda>gw. gwName gw = gatewayNameStr \<and> gwNamespace gw = dnsNamespace dns) gws of
             None \<Rightarrow> []
           | Some gw \<Rightarrow>
               (case listenerLink m (gwUID gw) dnsName (idx m (dnsUID dns))
                       (enumerate 0 (gwListeners gw)) of
                  Some link \<Rightarrow> [link]
                | None \<Rightarrow>
                    (case m (gwUID gw) of
                       Some gatewayIndex \<Rightarrow>
                         [\<lparr>lSource = gatewayIndex, lTarget = idx m (dnsUID dns),
                           lType = ''dnsRecord''\<rparr>]
                     | None \<Rightarrow> []))))"

definition addDNSRecord :: "Gateway list \<Rightarrow> build \<Rightarrow> DNSRecord \<Rightarrow> build" where
  "addDNSRecord gws b dns =
     (let b1 = addNode (dnsNode dns) b
      in b1\<lparr>bLinks := bLinks b1 @ dnsLinks gws (nodeMap b1) dns\<rparr>)"

text \<open>The node-emitting part of \<open>buildGraph\<close>, in the source's order.\<close>

definition emptyBuild :: build where
  "emptyBuild = \<lparr>bNodes = [], bLinks = [], nodeMap = Map.empty, nodeIndex = 0\<rparr>"

definition buildNodes :: "ResourceCollection \<Rightarrow> build" where
  "buildNodes resources =
     (let b1 = foldl (\<lambda>b gc. addNode (gatewayClassNode gc) b) emptyBuild (GatewayClasses resources);
          b2 = foldl (addGateway (GatewayClasses resources)) b1 (Gateways resources);
          b3 = foldl (addRoute (Gateways resources)) b2 (HTTPRoutes resources);
          b4 = foldl (\<lambda>b grant. addNode (grantNode grant) b) b3 (ReferenceGrants resources);
          b5 = foldl (addDNSRecord (Gateways resources)) b4 (DNSRecords resources);
          b6 = foldl (\<lambda>b svc. addNode (serviceNode svc) b) b5 (Services resources)
      in b6)"

text \<open>
  The \<open>backendRef\<close> links, added after the zones: for every backend reference of every
  rule, the first service with that name in the reference's namespace (the route's when
  the reference has none).
\<close>

definition backendLink :: "Service list \<Rightarrow> (string \<rightharpoonup> nat) \<Rightarrow> HTTPRoute \<Rightarrow> BackendRef \<Rightarrow> Link list" where
  "backendLink svcs m route backendRef =
     (let serviceNamespace = (case brNamespace backendRef of
                                None \<Rightarrow> rtNamespace route | Some ns \<Rightarrow> ns)
      in case find (\<lambda>svc. svcName svc = brName backendRef \<and> svcNamespace svc = serviceNamespace) svcs of
           None \<Rightarrow> []
         | Some svc \<Rightarrow> [\<lparr>lSource = idx m (rtUID route), lTarget = idx m (svcUID svc),
                          lType = ''backendRef''\<rparr>])"

definition backendLinks :: "ResourceCollection \<Rightarrow> (string \<rightharpoonup> nat) \<Rightarrow> Link list" where
  "backendLinks resources m =
     concat (map (\<lambda>route. concat (map (\<lambda>rule. concat (map (backendLink (Services resources) m route) rule))
                                    (rtRules route)))
               (HTTPRoutes resources))"


section \<open>Zones\<close>

text \<open>
  The per-build accumulators. \<open>dnsZoneMap\<close> (zone name to member ids) is the one map the
  source ranges over, so it is an association list with one entry per key, in the order the
  keys were first written; the others are only read by key. An absent key of
  \<open>dnsZoneMap\<close> or \<open>nodeZoneMap\<close> reads as the nil slice.
\<close>

record zstate =
  dnsZoneMap :: "(string \<times> string list) list"
  nodeZoneMap :: "string \<rightharpoonup> string list"
  nodePrimaryZone :: "string \<rightharpoonup> string"
  dnsRecordHostnames :: "string \<rightharpoonup> string"

text \<open>\<open>m[k] = append(m[k], v)\<close> on the association list.\<close>

fun appendTo :: "string \<Rightarrow> string \<Rightarrow> (string \<times> string list) list \<Rightarrow> (string \<times> string list) list" where
  "appendTo k v [] = [(k, [v])]"
| "appendTo k v ((k', vs) # m) =
     (if k = k' then (k', vs @ [v]) # m else (k', vs) # appendTo k v m)"

definition sliceOf :: "(string \<rightharpoonup> string list) \<Rightarrow> string \<Rightarrow> string list" where
  "sliceOf m k = (case m k of None \<Rightarrow> [] | Some vs \<Rightarrow> vs)"

text \<open>
  The loop \<open>for _, zone := range zones\<close> that adds the node \<open>nodeID\<close> to each zone and
  each zone to the node.
\<close>

definition addZone :: "string \<Rightarrow> zstate \<Rightarrow> string \<Rightarrow> zstate" where
  "addZone nodeID st zone =
     st\<lparr>dnsZoneMap := appendTo zone nodeID (dnsZoneMap st),
        nodeZoneMap := (nodeZoneMap st)(nodeID \<mapsto> sliceOf (nodeZoneMap st) nodeID @ [zone])\<rparr>"

definition addToZones :: "string \<Rightarrow> string list \<Rightarrow> zstate \<Rightarrow> zstate" where
  "addToZones nodeID zones st = foldl (addZone nodeID) st zones"

text \<open>The DNSRecord pass, one record.\<close>

definition dnsZoneStep :: "zstate \<Rightarrow> DNSRecord \<Rightarrow> zstate" where
  "dnsZoneStep st dns =
     (let dnsName = trimDot (dnsSpecName dns);
          uid = dnsUID dns
      in if dnsName \<noteq> [] then
           (let st1 = st\<lparr>dnsRecordHostnames := (dnsRecordHostnames st)(dnsName \<mapsto> uid)\<rparr>
            in case extractHierarchicalZones dnsName of
                 [] \<Rightarrow> st1
               | zone0 # rest \<Rightarrow>
                   (let st2 = addToZones uid (zone0 # rest) st1
                    in st2\<lparr>nodePrimaryZone := (nodePrimaryZone st2)(uid \<mapsto> zone0)\<rparr>))
         else st)"

text \<open>
  The branch shared by the route and the listener pass: the hostname is the DNS name of a
  record that has zones. The node gets that record's zones and, when the record has one,
  its primary zone. \<open>None\<close>: the branch is not taken.
\<close>

definition inheritZones :: "string \<Rightarrow> string \<Rightarrow> zstate \<Rightarrow> zstate option" where
  "inheritZones nodeID hostnameStr st =
     (case dnsRecordHostnames st hostnameStr of
        None \<Rightarrow> None
      | Some uid \<Rightarrow>
          (case nodeZoneMap st uid of
             None \<Rightarrow> None
           | Some dnsZones \<Rightarrow>
               (let st1 = addToZones nodeID dnsZones st
                in Some (case nodePrimaryZone st1 uid of
                           None \<Rightarrow> st1
                         | Some primaryZone \<Rightarrow>
                             st1\<lparr>nodePrimaryZone := (nodePrimaryZone st1)(nodeID \<mapsto> primaryZone)\<rparr>))))"

text \<open>
  The other branch: the zones are extracted from the hostname itself, and the primary
  zone is set only when the node has none. \<open>None\<close>: no zones.
\<close>

definition ownZones :: "string \<Rightarrow> string \<Rightarrow> zstate \<Rightarrow> zstate option" where
  "ownZones nodeID hostnameStr st =
     (case extractHierarchicalZones hostnameStr of
        [] \<Rightarrow> None
      | zone0 # rest \<Rightarrow>
          (let st1 = addToZones nodeID (zone0 # rest) st
           in Some (case nodePrimaryZone st1 nodeID of
                      None \<Rightarrow> st1\<lparr>nodePrimaryZone := (nodePrimaryZone st1)(nodeID \<mapsto> zone0)\<rparr>
                    | Some _ \<Rightarrow> st1)))"

text \<open>
  The hostname loop of one route: the first hostname for which one of the two branches
  assigns zones ends the loop (\<open>break\<close>).
\<close>

fun routeHostnames :: "string \<Rightarrow> string list \<Rightarrow> zstate \<Rightarrow> zstate" where
  "routeHostnames routeID [] st = st"
| "routeHostnames routeID (hostnameStr # rest) st =
     (case inheritZones routeID hostnameStr st of
        Some st' \<Rightarrow> st'
      | None \<Rightarrow>
          (case ownZones routeID hostnameStr st of
             Some st' \<Rightarrow> st'
           | None \<Rightarrow> routeHostnames routeID rest st))"

definition routeZoneStep :: "zstate \<Rightarrow> HTTPRoute \<Rightarrow> zstate" where
  "routeZoneStep st route = routeHostnames (rtUID route) (rtHostnames route) st"

text \<open>The listener pass, one listener: at most one hostname, same two branches.\<close>

definition listenerZoneStep :: "string \<Rightarrow> zstate \<Rightarrow> nat \<times> Listener \<Rightarrow> zstate" where
  "listenerZoneStep uid st il =
     (case listenerHostname (snd il) of
        None \<Rightarrow> st
      | Some hostnameStr \<Rightarrow>
          (case inheritZones (listenerID uid (fst il)) hostnameStr st of
             Some st' \<Rightarrow> st'
           | None \<Rightarrow>
               (case ownZones (listenerID uid (fst il)) hostnameStr st of
                  Some st' \<Rightarrow> st'
                | None \<Rightarrow> st)))"

definition gatewayZoneStep :: "zstate \<Rightarrow> Gateway \<Rightarrow> zstate" where
  "gatewayZoneStep st gw = foldl (listenerZoneStep (gwUID gw)) st (enumerate 0 (gwListeners gw))"

definition emptyZones :: zstate where
  "emptyZones = \<lparr>dnsZoneMap = [], nodeZoneMap = Map.empty, nodePrimaryZone = Map.empty,
                 dnsRecordHostnames = Map.empty\<rparr>"

definition dnsPass :: "ResourceCollection \<Rightarrow> zstate" where
  "dnsPass resources = foldl dnsZoneStep emptyZones (DNSRecords resources)"

definition routePass :: "ResourceCollection \<Rightarrow> zstate" where
  "routePass resources = foldl routeZoneStep (dnsPass resources) (HTTPRoutes resources)"

definition listenerPass :: "ResourceCollection \<Rightarrow> zstate" where
  "listenerPass resources = foldl gatewayZoneStep (routePass resources) (Gateways resources)"

text \<open>
  \<open>for i := range graph.Nodes\<close>: the primary zone, when the node's id has one, is written
  to the node.
\<close>

definition setDNSZone :: "(string \<rightharpoonup> string) \<Rightarrow> Node \<Rightarrow> Node" where
  "setDNSZone pz node =
     (case pz (nID node) of None \<Rightarrow> node | Some primaryZone \<Rightarrow> node\<lparr>nDNSZone := primaryZone\<rparr>)"

section \<open>Pruning and colours\<close>

record zoneInfo =
  ziName :: string
  ziNodeIDs :: "string list"
  ziDepth :: nat

text \<open>\<open>len(strings.Split(zoneName, "."))\<close>.\<close>

definition zoneDepth :: "string \<Rightarrow> nat" where
  "zoneDepth zoneName = length (splitDot zoneName)"

definition mkZoneInfo :: "string \<times> string list \<Rightarrow> zoneInfo" where
  "mkZoneInfo e = \<lparr>ziName = fst e, ziNodeIDs = snd e, ziDepth = zoneDepth (fst e)\<rparr>"

text \<open>
  \<open>slicesEqual\<close>: equal lengths, and every key counted in \<open>a\<close> has the same count in
  \<open>b\<close>. The count maps read \<open>0\<close> at an absent key.
\<close>

definition countItems :: "string list \<Rightarrow> string \<Rightarrow> nat" where
  "countItems xs = foldl (\<lambda>m item. m(item := m item + 1)) (\<lambda>_. 0) xs"

definition slicesEqual :: "string list \<Rightarrow> string list \<Rightarrow> bool" where
  "slicesEqual a b =
     (if length a \<noteq> length b then False
      else (\<forall>key \<in> set a. countItems b key = countItems a key))"

text \<open>
  The inner loop of the pruning pass: a zone is created unless some zone of the whole list
  is deeper, has as many members and \<open>slicesEqual\<close> members.
\<close>

definition shouldCreateZone :: "zoneInfo list \<Rightarrow> zoneInfo \<Rightarrow> bool" where
  "shouldCreateZone zones zi =
     (\<not> list_ex (\<lambda>otherZone. ziDepth zi < ziDepth otherZone
                    \<and> length (ziNodeIDs otherZone) = length (ziNodeIDs zi)
                    \<and> slicesEqual (ziNodeIDs otherZone) (ziNodeIDs zi)) zones)"

definition zoneColors :: "string list" where
  "zoneColors = [''#e3f2fd'', ''#f3e5f5'', ''#e8f5e8'', ''#fff3e0'',
                 ''#fce4ec'', ''#e0f2f1'', ''#f9fbe7'', ''#fff8e1'']"

fun createZones :: "zoneInfo list \<Rightarrow> zoneInfo list \<Rightarrow> nat \<Rightarrow> DNSZone list" where
  "createZones zones [] colorIndex = []"
| "createZones zones (zi # rest) colorIndex =
     (if shouldCreateZone zones zi
      then \<lparr>zName = ziName zi, zNodes = ziNodeIDs zi,
            zColor = zoneColors ! (colorIndex mod length zoneColors)\<rparr>
             # createZones zones rest (colorIndex + 1)
      else createZones zones rest colorIndex)"

text \<open>
  Go visits the entries of a map in an order the language leaves open (and the runtime
  randomises), so the zone slice built by \<open>for zoneName, nodeIDs := range dnsZoneMap\<close>
  is the entries in some order: the parameter \<open>rangeOrder\<close> is that choice, and an order
  the runtime can take is a permutation of the entries.
  \<open>sort.Slice\<close> with \<open>zones[i].depth > zones[j].depth\<close> is modelled by the stable sort
  on the negated depth; the order it leaves between zones of equal depth is then the one
  \<open>rangeOrder\<close> gave, which ranges over all of them.
\<close>

definition validOrder :: "((string \<times> string list) list \<Rightarrow> (string \<times> string list) list) \<Rightarrow> bool" where
  "validOrder rangeOrder = (\<forall>m. mset (rangeOrder m) = mset m)"

definition sortedZones :: "((string \<times> string list) list \<Rightarrow> (string \<times> string list) list) \<Rightarrow> (string \<times> string list) list \<Rightarrow> zoneInfo list" where
  "sortedZones rangeOrder m = sort_key (\<lambda>zi. - int (ziDepth zi)) (map mkZoneInfo (rangeOrder m))"

definition buildZones :: "((string \<times> string list) list \<Rightarrow> (string \<times> string list) list) \<Rightarrow> (string \<times> string list) list \<Rightarrow> DNSZone list" where
  "buildZones rangeOrder m =
     (let zones = sortedZones rangeOrder m in createZones zones zones 0)"

section \<open>buildGraph\<close>

definition buildGraph :: "((string \<times> string list) list \<Rightarrow> (string \<times> string list) list) \<Rightarrow> ResourceCollection \<Rightarrow> Graph" where
  "buildGraph rangeOrder resources =
     (let b = buildNodes resources;
          st = listenerPass resources
      in \<lparr>gNodes = map (setDNSZone (nodePrimaryZone st)) (bNodes b),
          gLinks = bLinks b @ backendLinks resources (nodeMap b),
          gDNSZones = buildZones rangeOrder (dnsZoneMap st)\<rparr>)"

section \<open>Notions used to state the properties\<close>

text \<open>\<open>dnsZoneMap[zone]\<close>: the member ids of a zone, the nil slice for an absent zone.\<close>

definition zoneMembers :: "(string \<times> string list) list \<Rightarrow> string \<Rightarrow> string list" where
  "zoneMembers m zone = (case map_of m zone of None \<Rightarrow> [] | Some ids \<Rightarrow> ids)"

text \<open>
  The three zone passes run one after the other, each a loop over resources. Seen as one
  sequence of steps, every step handles one DNSRecord, one route or one listener, and
  \<open>eventID\<close> is the node id that step assigns zones to.
\<close>

datatype zevent =
  DnsEvent DNSRecord
| RouteEvent HTTPRoute
| ListenerEvent string "nat \<times> Listener"

fun zoneStep :: "zstate \<Rightarrow> zevent \<Rightarrow> zstate" where
  "zoneStep st (DnsEvent dns) = dnsZoneStep st dns"
| "zoneStep st (RouteEvent route) = routeZoneStep st route"
| "zoneStep st (ListenerEvent uid il) = listenerZoneStep uid st il"

fun eventID :: "zevent \<Rightarrow> string" where
  "eventID (DnsEvent dns) = dnsUID dns"
| "eventID (RouteEvent route) = rtUID route"
| "eventID (ListenerEvent uid il) = listenerID uid (fst il)"

definition listenerEvents :: "Gateway \<Rightarrow> zevent list" where
  "listenerEvents gw = map (ListenerEvent (gwUID gw)) (enumerate 0 (gwListeners gw))"

definition zoneEvents :: "ResourceCollection \<Rightarrow> zevent list" where
  "zoneEvents resources =
     map DnsEvent (DNSRecords resources) @ map RouteEvent (HTTPRoutes resources)
       @ concat (map listenerEvents (Gateways resources))"

text \<open>The state of the accumulators after the first \<open>k\<close> steps.\<close>

definition zonesAfter :: "ResourceCollection \<Rightarrow> nat \<Rightarrow> zstate" where
  "zonesAfter resources k = foldl zoneStep emptyZones (take k (zoneEvents resources))"

text \<open>
  The ids of the input resources, and the ids of the nodes of a snapshot: the latter add
  the listener ids the builder derives from the gateway ids.
\<close>

definition inputIDs :: "ResourceCollection \<Rightarrow> string list" where
  "inputIDs resources =
     map gcUID (GatewayClasses resources) @ map gwUID (Gateways resources)
       @ map rtUID (HTTPRoutes resources) @ map rgUID (ReferenceGrants resources)
       @ map dnsUID (DNSRecords resources) @ map svcUID (Services resources)"

definition nodeIDs :: "ResourceCollection \<Rightarrow> string list" where
  "nodeIDs resources = map nID (bNodes (buildNodes resources))"

text \<open>
  An entry of \<open>dnsZoneMap\<close> is kept by the pruning pass when no entry of the map is deeper
  with the same members counted with multiplicity.
\<close>

definition keptEntry :: "(string \<times> string list) list \<Rightarrow> string \<times> string list \<Rightarrow> bool" where
  "keptEntry m e =
     (\<not> list_ex (\<lambda>e'. zoneDepth (fst e) < zoneDepth (fst e') \<and> mset (snd e') = mset (snd e)) m)"

text \<open>
  What one step does to the accumulators, whatever its branch: it adds the step's node to a
  list \<open>zs\<close> of zones, which is duplicate-free or the zone list recorded for some node,
  leaves the primary zones of all other nodes alone and removes no primary zone.
\<close>

definition assigns :: "string \<Rightarrow> string list \<Rightarrow> zstate \<Rightarrow> zstate \<Rightarrow> bool" where
  "assigns nodeID zs st st' =
     (dnsZoneMap st' = dnsZoneMap (addToZones nodeID zs st) \<and>
      nodeZoneMap st' = nodeZoneMap (addToZones nodeID zs st) \<and>
      (\<forall>k. k \<noteq> nodeID \<longrightarrow> nodePrimaryZone st' k = nodePrimaryZone st k) \<and>
      (nodePrimaryZone st nodeID \<noteq> None \<longrightarrow> nodePrimaryZone st' nodeID \<noteq> None) \<and>
      (distinct zs \<or> (\<exists>uid. nodeZoneMap st uid = Some zs)))"

text \<open>
  Two invariants of the accumulators. \<open>zrel\<close>: the keys of \<open>dnsZoneMap\<close> are distinct,
  and a node occurs in a zone's member list as often as the zone occurs in the node's zone
  list. \<open>zdist\<close>: no node's zone list has a duplicate.
\<close>

definition zrel :: "zstate \<Rightarrow> bool" where
  "zrel st = (distinct (map fst (dnsZoneMap st)) \<and>
     (\<forall>z k. count (mset (zoneMembers (dnsZoneMap st) z)) k = count (mset (sliceOf (nodeZoneMap st) k)) z))"

definition zdist :: "zstate \<Rightarrow> bool" where
  "zdist st = (\<forall>k. distinct (sliceOf (nodeZoneMap st) k))"



text \<open>
  The builder's state when the DNSRecord loop starts: the classes, gateways (with their
  listeners), routes and grants are emitted.
\<close>

definition nodesBeforeDNS :: "ResourceCollection \<Rightarrow> build" where
  "nodesBeforeDNS resources =
     foldl (\<lambda>b grant. addNode (grantNode grant) b)
       (foldl (addRoute (Gateways resources))
          (foldl (addGateway (GatewayClasses resources))
             (foldl (\<lambda>b gc. addNode (gatewayClassNode gc) b) emptyBuild (GatewayClasses resources))
             (Gateways resources))
          (HTTPRoutes resources))
       (ReferenceGrants resources)"

text \<open>
  \<open>wfBuild\<close>: \<open>nodeIndex\<close> is the number of nodes, and every entry of \<open>nodeMap\<close> is the
  position of a node with that id.
\<close>

definition wfBuild :: "build \<Rightarrow> bool" where
  "wfBuild b =
     (nodeIndex b = length (bNodes b) \<and>
      (\<forall>k i. nodeMap b k = Some i \<longrightarrow> i < length (bNodes b) \<and> nID (bNodes b ! i) = k))"

text \<open>
  \<open>keeps\<close>: no key of \<open>nodeMap\<close> is lost. \<open>emitted\<close>: the ids of a gateway and of all its
  listeners are keys of \<open>nodeMap\<close>.
\<close>

definition keeps :: "build \<Rightarrow> build \<Rightarrow> bool" where
  "keeps b b' = (\<forall>k. nodeMap b k \<noteq> None \<longrightarrow> nodeMap b' k \<noteq> None)"

definition emitted :: "Gateway \<Rightarrow> build \<Rightarrow> bool" where
  "emitted gw b = (nodeMap b (gwUID gw) \<noteq> None \<and>
     (\<forall>i < length (gwListeners gw). nodeMap b (listenerID (gwUID gw) i) \<noteq> None))"

text \<open>
  The id of the node a DNSRecord's link starts at, for the gateway the record resolves to:
  the first listener whose hostname is the DNS name, else the gateway itself.
\<close>

definition dnsLinkSource :: "Gateway \<Rightarrow> string \<Rightarrow> string" where
  "dnsLinkSource gw dnsName =
     (case find (\<lambda>(i, l). listenerHostname l = Some dnsName) (enumerate 0 (gwListeners gw)) of
        Some (i, l) \<Rightarrow> listenerID (gwUID gw) i
      | None \<Rightarrow> gwUID gw)"

section \<open>Concrete resource collections\<close>

text \<open>Small collections on which the theorems below are evaluated.\<close>

definition mkListener :: "string option \<Rightarrow> Listener" where
  "mkListener h = \<lparr>listenerName = [], listenerHostname = h, listenerPort = 443,
                   listenerProtocol = ''HTTPS'', listenerTLS = True\<rparr>"

definition noResources :: ResourceCollection where
  "noResources = \<lparr>GatewayClasses = [], Gateways = [], HTTPRoutes = [], ReferenceGrants = [],
                  DNSRecords = [], Services = []\<rparr>"

text \<open>
  One gateway \<open>gw\<close> in namespace \<open>ns\<close> whose two listeners both have the hostname
  \<open>a.com\<close>, and one DNSRecord \<open>a.com.\<close> labelled with the gateway's name.
\<close>

definition exTwoListeners :: ResourceCollection where
  "exTwoListeners = noResources
     \<lparr>Gateways := [\<lparr>gwUID = ''g'', gwName = ''gw'', gwNamespace = ''ns'', gwClassName = [],
                     gwListeners = [mkListener (Some ''a.com''), mkListener (Some ''a.com'')]\<rparr>],
      DNSRecords := [\<lparr>dnsUID = ''d1'', dnsMetaName = ''rec'', dnsNamespace = ''ns'',
                       dnsSpecName = ''a.com.'', dnsGatewayLabel = Some ''gw''\<rparr>]\<rparr>"




text \<open>Two DNSRecords whose zones, \<open>a.com\<close> and \<open>b.org\<close>, have the same depth.\<close>

definition exTwoZones :: ResourceCollection where
  "exTwoZones = noResources
     \<lparr>DNSRecords := [\<lparr>dnsUID = ''d1'', dnsMetaName = ''one'', dnsNamespace = ''ns'',
                       dnsSpecName = ''a.com'', dnsGatewayLabel = None\<rparr>,
                      \<lparr>dnsUID = ''d2'', dnsMetaName = ''two'', dnsNamespace = ''ns'',
                       dnsSpecName = ''b.org'', dnsGatewayLabel = None\<rparr>]\<rparr>"

text \<open>
  A route whose UID is the id the builder derives for listener 0 of the gateway \<open>g\<close>.
  The input ids \<open>g\<close> and \<open>g-listener-0\<close> are distinct; the route's hostname is
  \<open>a.b.com\<close>, the listener's is \<open>b.com\<close>.
\<close>

definition exCollision :: ResourceCollection where
  "exCollision = noResources
     \<lparr>Gateways := [\<lparr>gwUID = ''g'', gwName = ''gw'', gwNamespace = ''ns'', gwClassName = [],
                     gwListeners = [mkListener (Some ''b.com'')]\<rparr>],
      HTTPRoutes := [\<lparr>rtUID = ''g-listener-0'', rtName = ''route'', rtNamespace = ''ns'',
                       rtParentRefs = [], rtHostnames = [''a.b.com''], rtRules = []\<rparr>]\<rparr>"

text \<open>
  A DNSRecord whose UID is the id derived for listener 0 of the gateway \<open>g\<close>, a second
  record \<open>b.y.org\<close>, and that listener with the hostname \<open>b.y.org\<close>.
\<close>

definition exOverwrite :: ResourceCollection where
  "exOverwrite = noResources
     \<lparr>Gateways := [\<lparr>gwUID = ''g'', gwName = ''gw'', gwNamespace = ''ns'', gwClassName = [],
                     gwListeners = [mkListener (Some ''b.y.org'')]\<rparr>],
      DNSRecords := [\<lparr>dnsUID = ''g-listener-0'', dnsMetaName = ''one'', dnsNamespace = ''ns'',
                       dnsSpecName = ''a.x.com'', dnsGatewayLabel = None\<rparr>,
                      \<lparr>dnsUID = ''d2'', dnsMetaName = ''two'', dnsNamespace = ''ns'',
                       dnsSpecName = ''b.y.org'', dnsGatewayLabel = None\<rparr>]\<rparr>"

text \<open>
  A DNSRecord \<open>shop.example.com.\<close>, a route whose hostnames are the empty string, the
  record's name and one more, and a gateway with a listener for another host.
\<close>

definition exShopRecord :: DNSRecord where
  "exShopRecord = \<lparr>dnsUID = ''d1'', dnsMetaName = ''shop'', dnsNamespace = ''ns'',
                   dnsSpecName = ''shop.example.com.'', dnsGatewayLabel = None\<rparr>"

definition exShopRoute :: HTTPRoute where
  "exShopRoute = \<lparr>rtUID = ''r1'', rtName = ''route'', rtNamespace = ''ns'', rtParentRefs = [],
                  rtHostnames = [[], ''shop.example.com'', ''other.org''], rtRules = []\<rparr>"

definition exShop :: ResourceCollection where
  "exShop = noResources
     \<lparr>Gateways := [\<lparr>gwUID = ''g'', gwName = ''gw'', gwNamespace = ''ns'', gwClassName = [],
                     gwListeners = [mkListener (Some ''api.example.com'')]\<rparr>],
      HTTPRoutes := [exShopRoute],
      DNSRecords := [exShopRecord]\<rparr>"

text \<open>
  Two DNSRecords, \<open>x.a.com\<close> and \<open>b.org\<close>: the zones \<open>a.com\<close> and \<open>x.a.com\<close> have the
  same single member.
\<close>

definition exPrune :: ResourceCollection where
  "exPrune = noResources
     \<lparr>DNSRecords := [\<lparr>dnsUID = ''d1'', dnsMetaName = ''one'', dnsNamespace = ''ns'',
                       dnsSpecName = ''x.a.com'', dnsGatewayLabel = None\<rparr>,
                      \<lparr>dnsUID = ''d2'', dnsMetaName = ''two'', dnsNamespace = ''ns'',
                       dnsSpecName = ''b.org'', dnsGatewayLabel = None\<rparr>]\<rparr>"
section \<open>Properties of the zone extraction\<close>

lemma splitDot_nonempty [simp]: "splitDot s \<noteq> []"
  by (induction s) (auto split: list.splits)

lemma length_splitDot_pos [simp]: "0 < length (splitDot s)"
  by (cases "splitDot s") auto

lemma joinDot_Cons: "ps \<noteq> [] \<Longrightarrow> joinDot (p # ps) = p @ CHR ''.'' # joinDot ps"
  by (cases ps) auto

lemma joinDot_splitDot [simp]: "joinDot (splitDot s) = s"
proof (induction s)
  case Nil show ?case by simp
next
  case (Cons c cs)
  show ?case
  proof (cases "c = CHR ''.''")
    case True
    then show ?thesis using Cons by (simp add: joinDot_Cons)
  next
    case False
    obtain p ps where sp: "splitDot cs = p # ps" by (cases "splitDot cs") auto
    show ?thesis
    proof (cases ps)
      case Nil
      then show ?thesis using False sp Cons by simp
    next
      case (Cons q qs)
      then show ?thesis using False sp Cons.IH by simp
    qed
  qed
qed

lemma joinDot_two_nonempty: "2 \<le> length ps \<Longrightarrow> joinDot ps \<noteq> []"
  by (cases ps; cases "tl ps") auto

lemma splitDot_wildcard: "take 2 h = ''*.'' \<Longrightarrow> splitDot h = ''*'' # splitDot (drop 2 h)"
proof -
  assume a: "take 2 h = ''*.''"
  then obtain t where "h = CHR ''*'' # CHR ''.'' # t"
    by (cases h; cases "tl h") auto
  then show ?thesis by simp
qed

lemma suffix_trimWildcard: "suffix (splitDot (trimWildcard h)) (splitDot h)"
  by (auto simp: trimWildcard_def splitDot_wildcard suffix_def)

lemma uniqueLoop_inv:
  "uniqueLoop zs (u, r) = (u', r') \<Longrightarrow> set u = set r \<Longrightarrow> distinct r \<Longrightarrow>
     set u' = set r' \<and> distinct r' \<and> set r' = set r \<union> {z \<in> set zs. z \<noteq> []}"
proof (induction zs arbitrary: u r)
  case Nil
  then show ?case by simp
next
  case (Cons z zs)
  show ?case
  proof (cases "z \<notin> set u \<and> z \<noteq> []")
    case True
    with Cons.prems have "uniqueLoop zs (z # u, r @ [z]) = (u', r')" by simp
    from Cons.IH[OF this] Cons.prems True show ?thesis by auto
  next
    case False
    with Cons.prems have "uniqueLoop zs (u, r) = (u', r')" by auto
    from Cons.IH[OF this] Cons.prems False show ?thesis by auto
  qed
qed

lemma appsIndexFrom_range: "appsIndexFrom i ps = Some a \<Longrightarrow> i \<le> a \<and> a < i + length ps \<and> ps ! (a - i) = ''apps''"
proof (induction ps arbitrary: i)
  case Nil then show ?case by simp
next
  case (Cons p ps)
  show ?case
  proof (cases "p = ''apps''")
    case True with Cons.prems show ?thesis by simp
  next
    case False
    with Cons.prems have "appsIndexFrom (Suc i) ps = Some a" by simp
    from Cons.IH[OF this] show ?thesis by (auto simp: Suc_diff_le)
  qed
qed

lemma appsIndexFrom_None: "appsIndexFrom i ps = None \<Longrightarrow> ''apps'' \<notin> set ps"
  by (induction ps arbitrary: i) (auto split: if_splits)

lemma openShift_has_apps: "isOpenShiftStyleDomain parts \<Longrightarrow> ''apps'' \<in> set parts"
proof -
  assume "isOpenShiftStyleDomain parts"
  then obtain a where a: "int a < int (length parts) - 3" "parts ! a = ''apps''"
    by (auto simp: isOpenShiftStyleDomain_def list_ex_iff in_set_enumerate_eq split: if_splits)
  then have "a < length parts" by linarith
  then show ?thesis using a(2) nth_mem by metis
qed

lemma openShift_appsIndex: "isOpenShiftStyleDomain parts \<Longrightarrow> \<exists>a. appsIndex parts = Some a \<and> a < length parts \<and> parts ! a = ''apps''"
proof -
  assume o: "isOpenShiftStyleDomain parts"
  then have "appsIndex parts \<noteq> None"
    using appsIndexFrom_None openShift_has_apps unfolding appsIndex_def by blast
  then obtain a where a: "appsIndex parts = Some a" by auto
  with appsIndexFrom_range[of 0 parts a] show ?thesis by (simp add: appsIndex_def)
qed

lemma candidateZones_suffix:
  "z \<in> set (candidateZones parts) \<Longrightarrow> \<exists>i. i < length parts - 1 \<and> z = joinDot (drop i parts)"
  by (auto simp: candidateZones_def split: if_splits option.splits)

lemma candidateZones_nonempty_str: "z \<in> set (candidateZones parts) \<Longrightarrow> z \<noteq> []"
proof -
  assume "z \<in> set (candidateZones parts)"
  then obtain i where "i < length parts - 1" "z = joinDot (drop i parts)"
    using candidateZones_suffix by blast
  then show ?thesis using joinDot_two_nonempty[of "drop i parts"] by simp
qed

lemma extractDNSZone_suffix:
  "\<exists>s. suffix s (splitDot (trimWildcard h)) \<and> extractDNSZone h = joinDot s"
proof (cases "h = []")
  case True
  then show ?thesis by (auto simp: extractDNSZone_def intro: exI[of _ "[]"])
next
  case False
  define parts where "parts = splitDot (trimWildcard h)"
  have j: "joinDot parts = trimWildcard h" by (simp add: parts_def)
  have d: "\<And>n. suffix (drop n parts) parts" by (rule suffix_drop)
  show ?thesis
  proof (cases "isOpenShiftStyleDomain parts")
    case True
    then obtain a where "appsIndex parts = Some a" using openShift_appsIndex by blast
    then have "extractOpenShiftZone parts = joinDot (drop (a - 1) parts)"
      by (auto simp: extractOpenShiftZone_def)
    moreover have "extractDNSZone h = (if length parts < 2 then trimWildcard h else extractOpenShiftZone parts)"
      using False True by (simp add: extractDNSZone_def Let_def parts_def)
    ultimately show ?thesis using d j unfolding parts_def[symmetric]
      by (metis suffix_order.refl)
  next
    case no: False
    have "extractDNSZone h = trimWildcard h \<or> (\<exists>n. extractDNSZone h = joinDot (drop n parts))"
      using False no j by (auto simp: extractDNSZone_def Let_def parts_def[symmetric] extractClusterInternalZone_def)
    then show ?thesis using d j unfolding parts_def[symmetric]
      by (metis suffix_order.refl)
  qed
qed

lemma zones_unfold:
  assumes "h \<noteq> []" "2 \<le> length (splitDot (trimWildcard h))"
    and "uniqueLoop (candidateZones (splitDot (trimWildcard h))) ([], []) = (u, r)"
  shows "extractHierarchicalZones h =
     (if extractDNSZone (trimWildcard h) \<notin> set u \<and> extractDNSZone (trimWildcard h) \<noteq> []
      then r @ [extractDNSZone (trimWildcard h)] else r)"
  using assms by (simp add: extractHierarchicalZones_def Let_def)

lemma zones_distinct: "distinct (extractHierarchicalZones h)"
proof (cases "h \<noteq> [] \<and> 2 \<le> length (splitDot (trimWildcard h))")
  case False
  then show ?thesis by (auto simp: extractHierarchicalZones_def Let_def)
next
  case True
  obtain u r where ur: "uniqueLoop (candidateZones (splitDot (trimWildcard h))) ([], []) = (u, r)"
    by (cases "uniqueLoop (candidateZones (splitDot (trimWildcard h))) ([], [])") auto
  from uniqueLoop_inv[OF ur] have "set u = set r" "distinct r" by auto
  then show ?thesis using zones_unfold[OF _ _ ur] True by auto
qed

lemma zones_suffix:
  assumes "z \<in> set (extractHierarchicalZones h)"
  shows "\<exists>s. suffix s (splitDot (trimWildcard h)) \<and> z = joinDot s"
proof (cases "2 \<le> length (splitDot (trimWildcard h))")
  case False
  then have "z = trimWildcard h" using assms
    by (auto simp: extractHierarchicalZones_def Let_def split: if_splits)
  then have "suffix (splitDot (trimWildcard h)) (splitDot (trimWildcard h)) \<and> z = joinDot (splitDot (trimWildcard h))"
    by simp
  then show ?thesis by blast
next
  case True
  have hne: "h \<noteq> []" using assms by (auto simp: extractHierarchicalZones_def)
  define parts where "parts = splitDot (trimWildcard h)"
  obtain u r where ur: "uniqueLoop (candidateZones parts) ([], []) = (u, r)"
    by (cases "uniqueLoop (candidateZones parts) ([], [])") auto
  from uniqueLoop_inv[OF ur] have r: "set r \<subseteq> set (candidateZones parts)" by auto
  from zones_unfold[OF hne True ur[unfolded parts_def]] assms
  consider "z \<in> set r" | "z = extractDNSZone (trimWildcard h)"
    by (auto split: if_splits)
  then show ?thesis
  proof cases
    case 1
    then obtain i where "z = joinDot (drop i parts)"
      using r candidateZones_suffix by blast
    then show ?thesis unfolding parts_def using suffix_drop by blast
  next
    case 2
    obtain s where s: "suffix s (splitDot (trimWildcard (trimWildcard h)))" "extractDNSZone (trimWildcard h) = joinDot s"
      using extractDNSZone_suffix by blast
    have "suffix s (splitDot (trimWildcard h))"
      using s(1) suffix_trimWildcard[of "trimWildcard h"] by (rule suffix_order.trans)
    then show ?thesis using 2 s(2) by auto
  qed
qed

lemma appsIndex_zero_no_wildcard:
  assumes "appsIndex (splitDot g) = Some 0"
  shows "trimWildcard g = g"
proof (cases "take 2 g = ''*.''")
  case True
  then have "splitDot g = ''*'' # splitDot (drop 2 g)" by (rule splitDot_wildcard)
  with assms have "appsIndexFrom (Suc 0) (splitDot (drop 2 g)) = Some 0"
    by (simp add: appsIndex_def)
  then have False using appsIndexFrom_range by fastforce
  then show ?thesis ..
next
  case False
  then show ?thesis by (simp add: trimWildcard_def)
qed

lemma appsIndexFrom_ge: "appsIndexFrom i ps = Some a \<Longrightarrow> i \<le> a"
  using appsIndexFrom_range by blast

lemma zones_nonempty_two:
  assumes two: "2 \<le> length (splitDot (trimWildcard h))"
  shows "extractHierarchicalZones h \<noteq> []"
proof -
  define g where "g = trimWildcard h"
  define parts where "parts = splitDot g"
  have len: "2 \<le> length parts" using two by (simp add: parts_def g_def)
  have gne: "g \<noteq> []" using len by (auto simp: parts_def)
  have hne: "h \<noteq> []" using gne by (auto simp: g_def trimWildcard_def)
  obtain u r where ur: "uniqueLoop (candidateZones parts) ([], []) = (u, r)"
    by (cases "uniqueLoop (candidateZones parts) ([], [])") auto
  from uniqueLoop_inv[OF ur]
  have sr: "set r = {z \<in> set (candidateZones parts). z \<noteq> []}" and ueq: "set u = set r" by auto
  then have sr': "set r = set (candidateZones parts)" using candidateZones_nonempty_str by auto
  have unf: "extractHierarchicalZones h =
     (if extractDNSZone g \<notin> set u \<and> extractDNSZone g \<noteq> [] then r @ [extractDNSZone g] else r)"
    using zones_unfold[OF hne two] ur by (simp add: parts_def g_def)
  show ?thesis
  proof (cases "candidateZones parts = []")
    case False
    then have "r \<noteq> []" using sr' by auto
    then show ?thesis using unf by auto
  next
    case True
    have os: "isOpenShiftStyleDomain parts"
    proof (rule ccontr)
      assume "\<not> isOpenShiftStyleDomain parts"
      then have "candidateZones parts = map (\<lambda>i. joinDot (drop i parts))
          (filter (\<lambda>i. i < length parts - 1) (rev [0 ..< length parts - 1]))"
        by (simp add: candidateZones_def)
      moreover have "0 \<in> set (filter (\<lambda>i. i < length parts - 1) (rev [0 ..< length parts - 1]))"
        using len by auto
      ultimately show False using True by (metis empty_iff list.set(1) list.map_disc_iff)
    qed
    then obtain a where a: "appsIndex parts = Some a" "a < length parts"
      using openShift_appsIndex by blast
    have a0: "a = 0"
    proof (rule ccontr)
      assume "a \<noteq> 0"
      then have "candidateZones parts = map (\<lambda>i. joinDot (drop i parts)) [a - 1 ..< length parts - 1]"
        using os a by (simp add: candidateZones_def)
      moreover have "a - 1 < length parts - 1" using a(2) \<open>a \<noteq> 0\<close> by linarith
      ultimately show False using True by simp
    qed
    have tg: "trimWildcard g = g"
      using appsIndex_zero_no_wildcard a(1) a0 by (simp add: parts_def)
    have "extractDNSZone g = extractOpenShiftZone parts"
      using gne tg len os by (simp add: extractDNSZone_def Let_def parts_def)
    also have "\<dots> = joinDot parts" using a(1) a0 by (simp add: extractOpenShiftZone_def)
    also have "\<dots> = g" by (simp add: parts_def)
    finally have b: "extractDNSZone g = g" .
    have "r = []" "u = []" using True sr' ueq by auto
    then show ?thesis using unf b gne by simp
  qed
qed

lemma zones_nonempty: "h \<noteq> [] \<Longrightarrow> extractHierarchicalZones h \<noteq> []"
proof (cases "2 \<le> length (splitDot (trimWildcard h))")
  case True
  then show ?thesis by (rule zones_nonempty_two)
next
  case False
  assume "h \<noteq> []"
  then show ?thesis using False by (simp add: extractHierarchicalZones_def Let_def)
qed

lemma generic_candidates:
  assumes "2 \<le> length parts" "\<not> isOpenShiftStyleDomain parts"
  shows "candidateZones parts = map (\<lambda>i. joinDot (drop i parts)) (rev [0 ..< length parts - 1])"
  using assms by (simp add: candidateZones_def)

text \<open>
  The generic loop runs \<open>i\<close> from \<open>len(parts) - 2\<close> down to \<open>0\<close>. The pass for
  \<open>i = len(parts) - 2\<close> gives the zone of the last two labels; for a hostname of exactly
  two labels that is the only pass and the zone is the hostname.
\<close>

lemma generic_last_two_labels:
  assumes two: "2 \<le> length (splitDot (trimWildcard h))"
    and gen: "\<not> isOpenShiftStyleDomain (splitDot (trimWildcard h))"
  shows "joinDot (drop (length (splitDot (trimWildcard h)) - 2) (splitDot (trimWildcard h)))
           \<in> set (zonesFor h)
       \<and> (length (splitDot (trimWildcard h)) = 2 \<and> take 2 (trimWildcard h) \<noteq> ''*.''
            \<longrightarrow> zonesFor h = [trimWildcard h])"
proof -
  define g where "g = trimWildcard h"
  define parts where "parts = splitDot g"
  have len: "2 \<le> length parts" using two by (simp add: parts_def g_def)
  have gne: "g \<noteq> []" using len by (auto simp: parts_def)
  have hne: "h \<noteq> []" using gne by (auto simp: g_def trimWildcard_def)
  have no: "\<not> isOpenShiftStyleDomain parts" using gen by (simp add: parts_def g_def)
  obtain u r where ur: "uniqueLoop (candidateZones parts) ([], []) = (u, r)"
    by (cases "uniqueLoop (candidateZones parts) ([], [])") auto
  have unf: "extractHierarchicalZones h =
     (if extractDNSZone g \<notin> set u \<and> extractDNSZone g \<noteq> [] then r @ [extractDNSZone g] else r)"
    using zones_unfold[OF hne two] ur by (simp add: parts_def g_def)
  have cand: "candidateZones parts = map (\<lambda>i. joinDot (drop i parts)) (rev [0 ..< length parts - 1])"
    using len no by (rule generic_candidates)
  from uniqueLoop_inv[OF ur]
  have sr: "set r = {z \<in> set (candidateZones parts). z \<noteq> []}" and ueq: "set u = set r" and dr: "distinct r"
    by auto
  then have sr': "set r = set (candidateZones parts)" using candidateZones_nonempty_str by auto
  have "length parts - 2 \<in> set (rev [0 ..< length parts - 1])" using len by auto
  then have "joinDot (drop (length parts - 2) parts) \<in> set (candidateZones parts)"
    unfolding cand by (metis (no_types, lifting) image_eqI set_map)
  then have a: "joinDot (drop (length parts - 2) parts) \<in> set (zonesFor h)"
    using sr' unf by auto
  have b: "zonesFor h = [g]" if l2: "length parts = 2" and nw: "take 2 g \<noteq> ''*.''"
  proof -
    have c2: "candidateZones parts = [g]"
      unfolding cand using l2 by (simp add: parts_def)
    have r1: "set r = {g}" using sr' c2 by simp
    have "length r = card (set r)" using dr by (simp add: distinct_card)
    then have "length r = 1" using r1 by simp
    then have rg: "r = [g]" using r1 by (cases r) auto
    have tg: "trimWildcard g = g" using nw by (simp add: trimWildcard_def)
    have ci: "\<not> isClusterInternalDomain parts" using l2 by (simp add: isClusterInternalDomain_def)
    have "extractDNSZone g = joinDot (drop (length parts - 2) parts)"
      using gne tg len no ci l2 by (simp add: extractDNSZone_def Let_def parts_def[symmetric])
    then have "extractDNSZone g = g" using l2 by (simp add: parts_def)
    then show ?thesis using unf rg ueq r1 by simp
  qed
  show ?thesis using a b unfolding parts_def g_def by blast
qed

text \<open>
  The guard \<open>i < len(parts) - 1\<close> inside the loop holds in every pass, the one for
  \<open>i = 0\<close> included, so the hostname (without its \<open>*.\<close>) is always among the zones.
\<close>

lemma generic_full_hostname:
  assumes two: "2 \<le> length (splitDot (trimWildcard h))"
    and gen: "\<not> isOpenShiftStyleDomain (splitDot (trimWildcard h))"
  shows "trimWildcard h \<in> set (zonesFor h)"
proof -
  define g where "g = trimWildcard h"
  define parts where "parts = splitDot g"
  have len: "2 \<le> length parts" using two by (simp add: parts_def g_def)
  have gne: "g \<noteq> []" using len by (auto simp: parts_def)
  have hne: "h \<noteq> []" using gne by (auto simp: g_def trimWildcard_def)
  have no: "\<not> isOpenShiftStyleDomain parts" using gen by (simp add: parts_def g_def)
  obtain u r where ur: "uniqueLoop (candidateZones parts) ([], []) = (u, r)"
    by (cases "uniqueLoop (candidateZones parts) ([], [])") auto
  have unf: "extractHierarchicalZones h =
     (if extractDNSZone g \<notin> set u \<and> extractDNSZone g \<noteq> [] then r @ [extractDNSZone g] else r)"
    using zones_unfold[OF hne two] ur by (simp add: parts_def g_def)
  have cand: "candidateZones parts = map (\<lambda>i. joinDot (drop i parts)) (rev [0 ..< length parts - 1])"
    using len no by (rule generic_candidates)
  from uniqueLoop_inv[OF ur]
  have sr: "set r = {z \<in> set (candidateZones parts). z \<noteq> []}" by auto
  then have sr': "set r = set (candidateZones parts)" using candidateZones_nonempty_str by auto
  have "0 \<in> set (rev [0 ..< length parts - 1])" using len by auto
  then have "joinDot (drop 0 parts) \<in> set (candidateZones parts)"
    unfolding cand by (metis (no_types, lifting) image_eqI set_map)
  then have "g \<in> set (candidateZones parts)" by (simp add: parts_def)
  then have "g \<in> set (zonesFor h)" using sr' unf by auto
  then show ?thesis by (simp add: g_def)
qed

section \<open>Properties of the link loops\<close>


lemma listenerLink_find:
  assumes "\<forall>(i, l) \<in> set ils. m (listenerID uid i) \<noteq> None"
  shows "listenerLink m uid dnsName target ils =
     (case find (\<lambda>(i, l). listenerHostname l = Some dnsName) ils of
        None \<Rightarrow> None
      | Some (i, l) \<Rightarrow> Some \<lparr>lSource = idx m (listenerID uid i), lTarget = target, lType = ''dnsRecord''\<rparr>)"
  using assms
proof (induction ils)
  case Nil
  then show ?case by simp
next
  case (Cons il ils)
  obtain i l where il: "il = (i, l)" by (cases il)
  from Cons.prems il obtain j where j: "m (listenerID uid i) = Some j" by auto
  show ?case using Cons il j by (auto simp: idx_def)
qed

lemma dnsLinks_emitted:
  assumes label: "dnsGatewayLabel dns = Some g"
    and gw: "find (\<lambda>gw. gwName gw = g \<and> gwNamespace gw = dnsNamespace dns) gws = Some gw"
    and ls: "\<forall>i < length (gwListeners gw). m (listenerID (gwUID gw) i) \<noteq> None"
    and gn: "m (gwUID gw) \<noteq> None"
  shows "dnsLinks gws m dns =
     (case find (\<lambda>(i, l). listenerHostname l = Some (trimDot (dnsSpecName dns)))
             (enumerate 0 (gwListeners gw)) of
        Some (i, l) \<Rightarrow> [\<lparr>lSource = idx m (listenerID (gwUID gw) i),
                          lTarget = idx m (dnsUID dns), lType = ''dnsRecord''\<rparr>]
      | None \<Rightarrow> [\<lparr>lSource = idx m (gwUID gw),
                   lTarget = idx m (dnsUID dns), lType = ''dnsRecord''\<rparr>])"
proof -
  have a: "\<forall>(i, l) \<in> set (enumerate 0 (gwListeners gw)). m (listenerID (gwUID gw) i) \<noteq> None"
    using ls by (auto simp: in_set_enumerate_eq)
  obtain gi where gi: "m (gwUID gw) = Some gi" using gn by auto
  show ?thesis
    using label gw gi listenerLink_find[OF a]
    by (auto simp: dnsLinks_def Let_def idx_def split: option.splits)
qed

section \<open>Properties of the pruning pass\<close>

lemma countItems_fold:
  "foldl (\<lambda>m item. m(item := m item + 1)) f xs k = f k + count (mset xs) k"
  by (induction xs arbitrary: f) auto

lemma countItems_count: "countItems xs k = count (mset xs) k"
  unfolding countItems_def countItems_fold by simp

lemma slicesEqual_mset: "slicesEqual a b \<longleftrightarrow> mset a = mset b"
proof
  assume "mset a = mset b"
  then show "slicesEqual a b"
    by (auto simp: slicesEqual_def countItems_count dest: mset_eq_length)
next
  assume s: "slicesEqual a b"
  then have len: "length a = length b"
    and cnt: "\<And>k. k \<in> set a \<Longrightarrow> count (mset b) k = count (mset a) k"
    by (auto simp: slicesEqual_def countItems_count split: if_splits)
  have sub: "mset a \<subseteq># mset b"
  proof (rule mset_subset_eqI)
    fix k show "count (mset a) k \<le> count (mset b) k"
    proof (cases "k \<in> set a")
      case True
      then show ?thesis by (simp add: cnt)
    next
      case False
      then have "count (mset a) k = 0" by (simp add: count_eq_zero_iff)
      then show ?thesis by linarith
    qed
  qed
  show "mset a = mset b"
  proof (rule ccontr)
    assume "mset a \<noteq> mset b"
    with sub have "mset a \<subset># mset b" by auto
    then have "size (mset a) < size (mset b)" by (rule mset_subset_size)
    with len show False by simp
  qed
qed

lemma shouldCreateZone_iff:
  "shouldCreateZone zones zi \<longleftrightarrow>
     \<not> (\<exists>other \<in> set zones. ziDepth zi < ziDepth other \<and> mset (ziNodeIDs other) = mset (ziNodeIDs zi))"
  by (auto simp: shouldCreateZone_def list_ex_iff slicesEqual_mset dest: mset_eq_length)

lemma shouldCreateZone_cong: "set zones = set zones' \<Longrightarrow> shouldCreateZone zones zi = shouldCreateZone zones' zi"
  by (simp add: shouldCreateZone_iff)

lemma createZones_entries:
  "map (\<lambda>z. (zName z, zNodes z)) (createZones zones zs ci) =
     map (\<lambda>zi. (ziName zi, ziNodeIDs zi)) (filter (shouldCreateZone zones) zs)"
  by (induction zs arbitrary: ci) auto

lemma createZones_colors:
  "map zColor (createZones zones zs ci) =
     map (\<lambda>i. zoneColors ! (i mod length zoneColors))
       [ci ..< ci + length (filter (shouldCreateZone zones) zs)]"
proof (induction zs arbitrary: ci)
  case Nil
  then show ?case by simp
next
  case (Cons zi zs)
  show ?case
  proof (cases "shouldCreateZone zones zi")
    case True
    have "[ci ..< ci + Suc (length (filter (shouldCreateZone zones) zs))] =
          ci # [Suc ci ..< Suc ci + length (filter (shouldCreateZone zones) zs)]"
      by (simp add: upt_rec)
    then show ?thesis using True Cons[of "ci + 1"] by simp
  next
    case False
    then show ?thesis using Cons[of ci] by simp
  qed
qed

lemma mkZoneInfo_simps [simp]:
  "ziName (mkZoneInfo e) = fst e" "ziNodeIDs (mkZoneInfo e) = snd e"
  "ziDepth (mkZoneInfo e) = zoneDepth (fst e)"
  by (simp_all add: mkZoneInfo_def)

lemma set_sortedZones:
  "mset (ro m) = mset m \<Longrightarrow> set (sortedZones ro m) = mkZoneInfo ` set m"
  by (simp add: sortedZones_def) (metis set_mset_mset)?

lemma mset_sortedZones:
  "mset (ro m) = mset m \<Longrightarrow> mset (sortedZones ro m) = image_mset mkZoneInfo (mset m)"
  by (simp add: sortedZones_def)

lemma sorted_sortedZones: "sorted (map (\<lambda>zi. - int (ziDepth zi)) (sortedZones ro m))"
  by (simp add: sortedZones_def)

lemma shouldCreateZone_entry:
  "mset (ro m) = mset m \<Longrightarrow> shouldCreateZone (sortedZones ro m) (mkZoneInfo e) = keptEntry m e"
  by (auto simp: shouldCreateZone_iff set_sortedZones keptEntry_def list_ex_iff)

lemma buildZones_entries_set:
  assumes "mset (ro m) = mset m"
  shows "set (map (\<lambda>z. (zName z, zNodes z)) (buildZones ro m)) = {e \<in> set m. keptEntry m e}"
proof -
  have "set (map (\<lambda>z. (zName z, zNodes z)) (buildZones ro m)) =
        (\<lambda>zi. (ziName zi, ziNodeIDs zi)) ` {zi \<in> set (sortedZones ro m). shouldCreateZone (sortedZones ro m) zi}"
    by (simp add: buildZones_def Let_def createZones_entries)
  also have "\<dots> = (\<lambda>zi. (ziName zi, ziNodeIDs zi)) ` {zi \<in> mkZoneInfo ` set m. shouldCreateZone (sortedZones ro m) zi}"
    using assms by (simp add: set_sortedZones)
  also have "\<dots> = (\<lambda>zi. (ziName zi, ziNodeIDs zi)) ` mkZoneInfo ` {e \<in> set m. keptEntry m e}"
    using assms by (auto simp: shouldCreateZone_entry)
  also have "\<dots> = {e \<in> set m. keptEntry m e}"
    by (simp add: image_image)
  finally show ?thesis .
qed

lemma buildZones_entries_mset:
  assumes "mset (ro m) = mset m"
  shows "mset (map (\<lambda>z. (zName z, zNodes z)) (buildZones ro m)) = filter_mset (keptEntry m) (mset m)"
proof -
  have "mset (map (\<lambda>z. (zName z, zNodes z)) (buildZones ro m)) =
        image_mset (\<lambda>zi. (ziName zi, ziNodeIDs zi)) (filter_mset (shouldCreateZone (sortedZones ro m)) (mset (sortedZones ro m)))"
    by (simp add: buildZones_def Let_def createZones_entries)
  also have "\<dots> = image_mset (\<lambda>zi. (ziName zi, ziNodeIDs zi))
       (filter_mset (shouldCreateZone (sortedZones ro m)) (image_mset mkZoneInfo (mset m)))"
    using assms by (simp add: mset_sortedZones)
  also have "\<dots> = image_mset (\<lambda>zi. (ziName zi, ziNodeIDs zi))
       (image_mset mkZoneInfo (filter_mset (\<lambda>e. shouldCreateZone (sortedZones ro m) (mkZoneInfo e)) (mset m)))"
    by (simp add: filter_mset_image_mset)
  also have "\<dots> = filter_mset (keptEntry m) (mset m)"
    using assms by (simp add: shouldCreateZone_entry image_mset.compositionality o_def)
  finally show ?thesis .
qed

section \<open>Properties of the zone passes\<close>

lemma map_of_appendTo:
  "map_of (appendTo k v m) z =
     (if z = k then Some ((case map_of m k of None \<Rightarrow> [] | Some ids \<Rightarrow> ids) @ [v]) else map_of m z)"
  by (induction m) auto

lemma zoneMembers_appendTo:
  "zoneMembers (appendTo k v m) z = (if z = k then zoneMembers m k @ [v] else zoneMembers m z)"
  by (simp add: zoneMembers_def map_of_appendTo)

lemma keys_appendTo: "set (map fst (appendTo k v m)) = insert k (set (map fst m))"
proof -
  have "dom (map_of (appendTo k v m)) = insert k (dom (map_of m))"
    by (auto simp: map_of_appendTo dom_def split: if_splits)
  then show ?thesis by (simp add: dom_map_of_conv_image_fst)
qed

lemma distinct_keys_appendTo: "distinct (map fst m) \<Longrightarrow> distinct (map fst (appendTo k v m))"
proof (induction m)
  case Nil then show ?case by simp
next
  case (Cons e m)
  have "set (map fst (appendTo k v m)) = insert k (set (map fst m))" by (rule keys_appendTo)
  then show ?case using Cons by (cases e) auto
qed

lemma addZone_fields [simp]:
  "nodePrimaryZone (addZone nodeID st zone) = nodePrimaryZone st"
  "dnsRecordHostnames (addZone nodeID st zone) = dnsRecordHostnames st"
  "dnsZoneMap (addZone nodeID st zone) = appendTo zone nodeID (dnsZoneMap st)"
  "nodeZoneMap (addZone nodeID st zone) = (nodeZoneMap st)(nodeID \<mapsto> sliceOf (nodeZoneMap st) nodeID @ [zone])"
  by (simp_all add: addZone_def)

lemma addToZones_fields [simp]:
  "nodePrimaryZone (addToZones nodeID zones st) = nodePrimaryZone st"
  "dnsRecordHostnames (addToZones nodeID zones st) = dnsRecordHostnames st"
  by (induction zones arbitrary: st) (simp_all add: addToZones_def)

lemma addToZones_Nil [simp]: "addToZones nodeID [] st = st"
  by (simp add: addToZones_def)

lemma addToZones_Cons: "addToZones nodeID (z # zs) st = addToZones nodeID zs (addZone nodeID st z)"
  by (simp add: addToZones_def)

lemma sliceOf_upd [simp]: "sliceOf (m(k \<mapsto> v)) k' = (if k' = k then v else sliceOf m k')"
  by (simp add: sliceOf_def)

lemma addToZones_nodeZoneMap_other:
  "k \<noteq> nodeID \<Longrightarrow> nodeZoneMap (addToZones nodeID zones st) k = nodeZoneMap st k"
  by (induction zones arbitrary: st) (simp_all add: addToZones_Cons)

lemma addToZones_sliceOf:
  "sliceOf (nodeZoneMap (addToZones nodeID zones st)) k =
     (if k = nodeID then sliceOf (nodeZoneMap st) nodeID @ zones else sliceOf (nodeZoneMap st) k)"
  by (induction zones arbitrary: st) (simp_all add: addToZones_Cons)


lemma addToZones_members:
  "zoneMembers (dnsZoneMap (addToZones nodeID zones st)) z =
     zoneMembers (dnsZoneMap st) z @ replicate (count_list zones z) nodeID"
proof (induction zones arbitrary: st)
  case Nil then show ?case by simp
next
  case (Cons a zs)
  show ?case
    by (simp add: addToZones_Cons Cons zoneMembers_appendTo replicate_app_Cons_same)
qed

lemma addToZones_keys:
  "set (map fst (dnsZoneMap (addToZones nodeID zones st))) = set (map fst (dnsZoneMap st)) \<union> set zones"
proof (induction zones arbitrary: st)
  case Nil then show ?case by simp
next
  case (Cons z zs)
  have "set (map fst (appendTo z nodeID (dnsZoneMap st))) = insert z (set (map fst (dnsZoneMap st)))"
    by (rule keys_appendTo)
  then show ?case using Cons[of "addZone nodeID st z"] by (simp add: addToZones_Cons)
qed

lemma addToZones_distinct_keys:
  "distinct (map fst (dnsZoneMap st)) \<Longrightarrow> distinct (map fst (dnsZoneMap (addToZones nodeID zones st)))"
  by (induction zones arbitrary: st) (simp_all add: addToZones_Cons distinct_keys_appendTo)

lemma inheritZones_Some:
  "inheritZones nodeID h st = Some st' \<Longrightarrow>
     \<exists>uid zs. dnsRecordHostnames st h = Some uid \<and> nodeZoneMap st uid = Some zs \<and>
       st' = (case nodePrimaryZone st uid of
                None \<Rightarrow> addToZones nodeID zs st
              | Some primaryZone \<Rightarrow>
                  (addToZones nodeID zs st)\<lparr>nodePrimaryZone := (nodePrimaryZone st)(nodeID \<mapsto> primaryZone)\<rparr>)"
  by (auto simp: inheritZones_def Let_def split: option.splits)


lemma ownZones_Some:
  "ownZones nodeID h st = Some st' \<Longrightarrow>
     extractHierarchicalZones h \<noteq> [] \<and>
       st' = (case nodePrimaryZone st nodeID of
                None \<Rightarrow> (addToZones nodeID (extractHierarchicalZones h) st)
                          \<lparr>nodePrimaryZone := (nodePrimaryZone st)(nodeID \<mapsto> hd (extractHierarchicalZones h))\<rparr>
              | Some _ \<Rightarrow> addToZones nodeID (extractHierarchicalZones h) st)"
  by (auto simp: ownZones_def Let_def split: option.splits list.splits)


lemma assigns_refl: "assigns nodeID [] st st"
  by (simp add: assigns_def)

lemma inheritZones_assigns:
  "inheritZones nodeID h st = Some st' \<Longrightarrow> \<exists>zs. assigns nodeID zs st st' \<and> dnsRecordHostnames st' = dnsRecordHostnames st"
  by (drule inheritZones_Some) (auto simp: assigns_def split: option.splits)

lemma ownZones_assigns:
  "ownZones nodeID h st = Some st' \<Longrightarrow> \<exists>zs. assigns nodeID zs st st' \<and> dnsRecordHostnames st' = dnsRecordHostnames st"
  by (drule ownZones_Some) (auto simp: assigns_def zones_distinct split: option.splits)

lemma routeHostnames_assigns:
  "\<exists>zs. assigns nodeID zs st (routeHostnames nodeID hs st) \<and>
        dnsRecordHostnames (routeHostnames nodeID hs st) = dnsRecordHostnames st"
proof (induction hs)
  case Nil
  then show ?case using assigns_refl by auto
next
  case (Cons h hs)
  show ?case
  proof (cases "inheritZones nodeID h st")
    case (Some st')
    then show ?thesis using inheritZones_assigns[OF Some] by simp
  next
    case None
    show ?thesis
    proof (cases "ownZones nodeID h st")
      case (Some st')
      then show ?thesis using None ownZones_assigns[OF Some] by simp
    next
      case n2: None
      then show ?thesis using None Cons by simp
    qed
  qed
qed

lemma listenerZoneStep_assigns:
  "\<exists>zs. assigns (listenerID uid (fst il)) zs st (listenerZoneStep uid st il) \<and>
        dnsRecordHostnames (listenerZoneStep uid st il) = dnsRecordHostnames st"
proof (cases "listenerHostname (snd il)")
  case None
  then show ?thesis using assigns_refl by (auto simp: listenerZoneStep_def)
next
  case (Some h)
  show ?thesis
  proof (cases "inheritZones (listenerID uid (fst il)) h st")
    case s: (Some st')
    then show ?thesis using Some inheritZones_assigns[OF s] by (simp add: listenerZoneStep_def)
  next
    case None
    show ?thesis
    proof (cases "ownZones (listenerID uid (fst il)) h st")
      case s: (Some st')
      then show ?thesis using Some None ownZones_assigns[OF s] by (simp add: listenerZoneStep_def)
    next
      case n2: None
      then show ?thesis using Some None assigns_refl by (auto simp: listenerZoneStep_def)
    qed
  qed
qed

lemma addZone_hostnames_upd:
  "addZone nodeID (st\<lparr>dnsRecordHostnames := x\<rparr>) z = (addZone nodeID st z)\<lparr>dnsRecordHostnames := x\<rparr>"
  by (simp add: addZone_def)

lemma addToZones_hostnames_upd:
  "addToZones nodeID zs (st\<lparr>dnsRecordHostnames := x\<rparr>) = (addToZones nodeID zs st)\<lparr>dnsRecordHostnames := x\<rparr>"
proof (induction zs arbitrary: st)
  case Nil
  then show ?case by simp
next
  case (Cons z zs)
  show ?case by (simp only: addToZones_Cons addZone_hostnames_upd Cons)
qed

lemma dnsZoneStep_eq:
  "dnsZoneStep st dns =
     (if trimDot (dnsSpecName dns) = [] then st
      else (addToZones (dnsUID dns) (extractHierarchicalZones (trimDot (dnsSpecName dns))) st)
             \<lparr>dnsRecordHostnames := (dnsRecordHostnames st)(trimDot (dnsSpecName dns) \<mapsto> dnsUID dns),
              nodePrimaryZone := (nodePrimaryZone st)(dnsUID dns \<mapsto>
                  hd (extractHierarchicalZones (trimDot (dnsSpecName dns))))\<rparr>)"
proof (cases "trimDot (dnsSpecName dns) = []")
  case True
  then show ?thesis by (simp add: dnsZoneStep_def)
next
  case False
  then obtain z zs where z: "extractHierarchicalZones (trimDot (dnsSpecName dns)) = z # zs"
    using zones_nonempty by (cases "extractHierarchicalZones (trimDot (dnsSpecName dns))") auto
  show ?thesis using False
    by (simp add: dnsZoneStep_def Let_def z addToZones_hostnames_upd)
qed

lemma dnsZoneStep_assigns:
  "\<exists>zs. assigns (dnsUID dns) zs st (dnsZoneStep st dns)"
proof (cases "trimDot (dnsSpecName dns) = []")
  case True
  then show ?thesis using assigns_refl by (auto simp: dnsZoneStep_def)
next
  case False
  define zs where "zs = extractHierarchicalZones (trimDot (dnsSpecName dns))"
  have "assigns (dnsUID dns) zs st (dnsZoneStep st dns)"
    using False zones_distinct[of "trimDot (dnsSpecName dns)"]
    by (simp add: dnsZoneStep_eq assigns_def zs_def)
  then show ?thesis ..
qed

lemma zoneStep_assigns: "\<exists>zs. assigns (eventID ev) zs st (zoneStep st ev)"
proof (cases ev)
  case (DnsEvent dns)
  then show ?thesis using dnsZoneStep_assigns by simp
next
  case (RouteEvent route)
  then show ?thesis using routeHostnames_assigns[of "rtUID route" st "rtHostnames route"]
    by (auto simp: routeZoneStep_def)
next
  case (ListenerEvent uid il)
  then show ?thesis using listenerZoneStep_assigns[of uid il st] by auto
qed

lemma assigns_nzm_frame: "assigns nodeID zs st st' \<Longrightarrow> k \<noteq> nodeID \<Longrightarrow> nodeZoneMap st' k = nodeZoneMap st k"
  by (simp add: assigns_def addToZones_nodeZoneMap_other)

lemma assigns_pz_frame: "assigns nodeID zs st st' \<Longrightarrow> k \<noteq> nodeID \<Longrightarrow> nodePrimaryZone st' k = nodePrimaryZone st k"
  by (simp add: assigns_def)

lemma assigns_sliceOf:
  "assigns nodeID zs st st' \<Longrightarrow>
   sliceOf (nodeZoneMap st') k = (if k = nodeID then sliceOf (nodeZoneMap st) nodeID @ zs else sliceOf (nodeZoneMap st) k)"
  by (simp add: assigns_def addToZones_sliceOf)

lemma assigns_members:
  "assigns nodeID zs st st' \<Longrightarrow>
   zoneMembers (dnsZoneMap st') z = zoneMembers (dnsZoneMap st) z @ replicate (count_list zs z) nodeID"
  by (simp add: assigns_def addToZones_members)

lemma assigns_keys:
  "assigns nodeID zs st st' \<Longrightarrow> distinct (map fst (dnsZoneMap st)) \<Longrightarrow> distinct (map fst (dnsZoneMap st'))"
  by (simp add: assigns_def addToZones_distinct_keys)


lemma zrel_empty: "zrel emptyZones" and zdist_empty: "zdist emptyZones"
  by (simp_all add: zrel_def zdist_def emptyZones_def zoneMembers_def sliceOf_def)

lemma zrel_step: "zrel st \<Longrightarrow> assigns nodeID zs st st' \<Longrightarrow> zrel st'"
  unfolding zrel_def
  by (auto simp: assigns_keys assigns_members assigns_sliceOf count_mset)

lemma zdist_step:
  assumes "zdist st" "assigns nodeID zs st st'" "nodeZoneMap st nodeID = None"
  shows "zdist st'"
proof -
  have "distinct zs"
  proof -
    from assms(2) consider "distinct zs" | uid where "nodeZoneMap st uid = Some zs"
      by (auto simp: assigns_def)
    then show ?thesis
    proof cases
      case 1 then show ?thesis .
    next
      case 2
      then have "sliceOf (nodeZoneMap st) uid = zs" by (simp add: sliceOf_def)
      then show ?thesis using assms(1) unfolding zdist_def by metis
    qed
  qed
  moreover have "sliceOf (nodeZoneMap st) nodeID = []" using assms(3) by (simp add: sliceOf_def)
  ultimately show ?thesis using assms(1,2) unfolding zdist_def
    by (auto simp: assigns_sliceOf)
qed

lemma zone_members_distinct:
  assumes "zrel st" "zdist st"
  shows "distinct (zoneMembers (dnsZoneMap st) z)"
proof -
  have "count (mset (zoneMembers (dnsZoneMap st) z)) k \<le> 1" for k
  proof -
    have "count (mset (zoneMembers (dnsZoneMap st) z)) k = count (mset (sliceOf (nodeZoneMap st) k)) z"
      using assms(1) by (simp add: zrel_def)
    also have "\<dots> \<le> 1" using assms(2) unfolding zdist_def
      by (metis distinct_count_atmost_1 le_numeral_extra(4) zero_le_one)
    finally show ?thesis .
  qed
  then show ?thesis by (metis distinct_count_atmost_1 count_mset_0_iff le_antisym not_less_eq_eq not_one_le_zero One_nat_def le_SucE le_zero_eq)
qed

lemma entry_members:
  "distinct (map fst m) \<Longrightarrow> (z, ids) \<in> set m \<Longrightarrow> zoneMembers m z = ids"
  by (simp add: zoneMembers_def)

lemma fold_nzm_dom:
  "dom (nodeZoneMap (foldl zoneStep st evs)) \<subseteq> dom (nodeZoneMap st) \<union> eventID ` set evs"
proof (induction evs rule: rev_induct)
  case Nil then show ?case by simp
next
  case (snoc ev evs)
  obtain zs where a: "assigns (eventID ev) zs (foldl zoneStep st evs) (zoneStep (foldl zoneStep st evs) ev)"
    using zoneStep_assigns by blast
  show ?case
  proof
    fix k assume k: "k \<in> dom (nodeZoneMap (foldl zoneStep st (evs @ [ev])))"
    show "k \<in> dom (nodeZoneMap st) \<union> eventID ` set (evs @ [ev])"
    proof (cases "k = eventID ev")
      case True then show ?thesis by simp
    next
      case False
      then have "k \<in> dom (nodeZoneMap (foldl zoneStep st evs))"
        using k assigns_nzm_frame[OF a False] by (auto simp: dom_def)
      then show ?thesis using snoc by auto
    qed
  qed
qed

lemma fold_pz_dom:
  "dom (nodePrimaryZone (foldl zoneStep st evs)) \<subseteq> dom (nodePrimaryZone st) \<union> eventID ` set evs"
proof (induction evs rule: rev_induct)
  case Nil then show ?case by simp
next
  case (snoc ev evs)
  obtain zs where a: "assigns (eventID ev) zs (foldl zoneStep st evs) (zoneStep (foldl zoneStep st evs) ev)"
    using zoneStep_assigns by blast
  show ?case
  proof
    fix k assume k: "k \<in> dom (nodePrimaryZone (foldl zoneStep st (evs @ [ev])))"
    show "k \<in> dom (nodePrimaryZone st) \<union> eventID ` set (evs @ [ev])"
    proof (cases "k = eventID ev")
      case True then show ?thesis by simp
    next
      case False
      then have "k \<in> dom (nodePrimaryZone (foldl zoneStep st evs))"
        using k assigns_pz_frame[OF a False] by (auto simp: dom_def)
      then show ?thesis using snoc by auto
    qed
  qed
qed

lemma fold_zrel: "zrel st \<Longrightarrow> zrel (foldl zoneStep st evs)"
proof (induction evs rule: rev_induct)
  case Nil then show ?case by simp
next
  case (snoc ev evs)
  then show ?case using zoneStep_assigns zrel_step by (metis foldl_Cons foldl_Nil foldl_append)
qed

lemma fold_zdist:
  assumes "distinct (map eventID evs)"
  shows "zdist (foldl zoneStep emptyZones evs)"
  using assms
proof (induction evs rule: rev_induct)
  case Nil then show ?case by (simp add: zdist_empty)
next
  case (snoc ev evs)
  let ?st = "foldl zoneStep emptyZones evs"
  have d: "zdist ?st" using snoc by simp
  have "eventID ev \<notin> eventID ` set evs" using snoc.prems by auto
  then have fresh: "nodeZoneMap ?st (eventID ev) = None"
    using fold_nzm_dom[of emptyZones evs] by (auto simp: emptyZones_def)
  obtain zs where a: "assigns (eventID ev) zs ?st (zoneStep ?st ev)"
    using zoneStep_assigns by blast
  show ?case using zdist_step[OF d a fresh] by simp
qed

lemma fold_pz_mono:
  assumes "distinct (map eventID evs)" "j \<le> k"
  shows "nodePrimaryZone (foldl zoneStep emptyZones (take j evs)) \<subseteq>\<^sub>m
         nodePrimaryZone (foldl zoneStep emptyZones (take k evs))"
  using assms(2)
proof (induction k)
  case 0 then show ?case by simp
next
  case (Suc k)
  show ?case
  proof (cases "j = Suc k")
    case True then show ?thesis by simp
  next
    case False
    then have jk: "j \<le> k" using Suc.prems by simp
    have step: "nodePrimaryZone (foldl zoneStep emptyZones (take k evs)) \<subseteq>\<^sub>m
                nodePrimaryZone (foldl zoneStep emptyZones (take (Suc k) evs))"
    proof (cases "k < length evs")
      case False then show ?thesis by simp
    next
      case True
      let ?st = "foldl zoneStep emptyZones (take k evs)"
      let ?ev = "evs ! k"
      have t: "take (Suc k) evs = take k evs @ [?ev]" using True by (simp add: take_Suc_conv_app_nth)
      have "distinct (map eventID (take (Suc k) evs))" using assms(1) by (simp add: distinct_take flip: take_map)
      then have "eventID ?ev \<notin> eventID ` set (take k evs)" unfolding t by auto
      then have fresh: "nodePrimaryZone ?st (eventID ?ev) = None"
        using fold_pz_dom[of emptyZones "take k evs"] by (auto simp: emptyZones_def)
      obtain zs where a: "assigns (eventID ?ev) zs ?st (zoneStep ?st ?ev)"
        using zoneStep_assigns by blast
      have "nodePrimaryZone ?st \<subseteq>\<^sub>m nodePrimaryZone (zoneStep ?st ?ev)"
        unfolding map_le_def
      proof
        fix x assume "x \<in> dom (nodePrimaryZone ?st)"
        then have "x \<noteq> eventID ?ev" using fresh by auto
        then show "nodePrimaryZone ?st x = nodePrimaryZone (zoneStep ?st ?ev) x"
          using assigns_pz_frame[OF a] by simp
      qed
      then show ?thesis unfolding t by simp
    qed
    show ?thesis using Suc.IH[OF jk] step by (rule map_le_trans)
  qed
qed

lemma addNode_fields [simp]:
  "bNodes (addNode n b) = bNodes b @ [n]"
  "bLinks (addNode n b) = bLinks b"
  "nodeMap (addNode n b) = (nodeMap b)(nID n \<mapsto> nodeIndex b)"
  "nodeIndex (addNode n b) = Suc (nodeIndex b)"
  by (simp_all add: addNode_def)

lemma addLink_fields [simp]:
  "bNodes (addLink l b) = bNodes b"
  "bLinks (addLink l b) = bLinks b @ [l]"
  "nodeMap (addLink l b) = nodeMap b"
  "nodeIndex (addLink l b) = nodeIndex b"
  by (simp_all add: addLink_def)

lemma fold_addNode_nodes:
  "bNodes (foldl (\<lambda>b x. addNode (f x) b) b xs) = bNodes b @ map f xs"
  by (induction xs arbitrary: b) simp_all

lemma addListener_nodes:
  "bNodes (addListener gw b il) = bNodes b @ [listenerNode gw (fst il) (snd il)]"
  by (simp add: addListener_def Let_def)

lemma fold_addListener_nodes:
  "bNodes (foldl (addListener gw) b ils) = bNodes b @ map (\<lambda>il. listenerNode gw (fst il) (snd il)) ils"
  by (induction ils arbitrary: b) (simp_all add: addListener_nodes)

lemma classRefLink_nodes [simp]: "bNodes (classRefLink gcs gw b) = bNodes b"
  by (simp add: classRefLink_def split: option.splits)

lemma addGateway_nodes:
  "bNodes (addGateway gcs b gw) =
     bNodes b @ gatewayNode gw # map (\<lambda>il. listenerNode gw (fst il) (snd il)) (enumerate 0 (gwListeners gw))"
  by (simp add: addGateway_def fold_addListener_nodes)

lemma parentRefLoop_nodes [simp]: "bNodes (parentRefLoop route parentRef gws b) = bNodes b"
  by (induction gws arbitrary: b) simp_all

lemma fold_parentRefLoop_nodes [simp]:
  "bNodes (foldl (\<lambda>b' parentRef. parentRefLoop route parentRef gws b') b prs) = bNodes b"
  by (induction prs arbitrary: b) simp_all

lemma addRoute_nodes: "bNodes (addRoute gws b route) = bNodes b @ [routeNode route]"
  by (simp add: addRoute_def)

lemma addDNSRecord_nodes: "bNodes (addDNSRecord gws b dns) = bNodes b @ [dnsNode dns]"
  by (simp add: addDNSRecord_def Let_def)

lemma fold_nodes_gen:
  assumes "\<And>b x. bNodes (f b x) = bNodes b @ g x"
  shows "bNodes (foldl f b xs) = bNodes b @ concat (map g xs)"
  by (induction xs arbitrary: b) (simp_all add: assms)

lemma node_id_simps [simp]:
  "nID (gatewayClassNode gc) = gcUID gc"
  "nID (gatewayNode gw) = gwUID gw"
  "nID (listenerNode gw i l) = listenerID (gwUID gw) i"
  "nID (routeNode route) = rtUID route"
  "nID (grantNode grant) = rgUID grant"
  "nID (dnsNode dns) = dnsUID dns"
  "nID (serviceNode svc) = svcUID svc"
  by (simp_all add: gatewayClassNode_def gatewayNode_def listenerNode_def routeNode_def
        grantNode_def dnsNode_def serviceNode_def plainNode_def Let_def)

lemma eventID_listenerEvents:
  "map eventID (listenerEvents gw) = map (\<lambda>il. listenerID (gwUID gw) (fst il)) (enumerate 0 (gwListeners gw))"
  by (simp add: listenerEvents_def)

lemma nodeIDs_eq:
  "nodeIDs r =
     map gcUID (GatewayClasses r)
     @ concat (map (\<lambda>gw. gwUID gw # map eventID (listenerEvents gw)) (Gateways r))
     @ map rtUID (HTTPRoutes r) @ map rgUID (ReferenceGrants r)
     @ map dnsUID (DNSRecords r) @ map svcUID (Services r)"
proof -
  have g: "bNodes (foldl (addGateway gcs) b gws) =
           bNodes b @ concat (map (\<lambda>gw. gatewayNode gw # map (\<lambda>il. listenerNode gw (fst il) (snd il)) (enumerate 0 (gwListeners gw))) gws)"
    for gcs b gws by (rule fold_nodes_gen) (simp add: addGateway_nodes)
  have rt: "bNodes (foldl (addRoute gws) b rs) = bNodes b @ concat (map (\<lambda>route. [routeNode route]) rs)"
    for gws b rs by (rule fold_nodes_gen) (simp add: addRoute_nodes)
  have d: "bNodes (foldl (addDNSRecord gws) b ds) = bNodes b @ concat (map (\<lambda>dns. [dnsNode dns]) ds)"
    for gws b ds by (rule fold_nodes_gen) (simp add: addDNSRecord_nodes)
  have c: "concat (map (\<lambda>x. [f x]) xs) = map f xs" for f :: "'a \<Rightarrow> 'b" and xs
    by (induction xs) simp_all
  show ?thesis
    by (simp add: nodeIDs_def buildNodes_def Let_def fold_addNode_nodes g rt d c emptyBuild_def
          map_concat o_def eventID_listenerEvents)
qed

lemma zoneEventIDs_eq:
  "map eventID (zoneEvents r) =
     map dnsUID (DNSRecords r) @ map rtUID (HTTPRoutes r)
     @ concat (map (\<lambda>gw. map eventID (listenerEvents gw)) (Gateways r))"
  by (simp add: zoneEvents_def map_concat o_def)

lemma mset_concat_tl:
  "mset (concat (map (\<lambda>x. g x) xs)) \<subseteq># mset (concat (map (\<lambda>x. f x # g x) xs))"
proof (induction xs)
  case Nil
  then show ?case by simp
next
  case (Cons a xs)
  have "mset (concat (map g xs)) \<subseteq># add_mset (f a) (mset (concat (map (\<lambda>x. f x # g x) xs)))"
    using Cons by (simp add: subseteq_mset_def le_SucI)
  then show ?case by simp
qed

lemma distinct_iff_count_le1: "distinct xs \<longleftrightarrow> (\<forall>a. count (mset xs) a \<le> 1)"
proof
  assume "distinct xs"
  then show "\<forall>a. count (mset xs) a \<le> 1" by (simp add: distinct_count_atmost_1)
next
  assume a: "\<forall>a. count (mset xs) a \<le> 1"
  have "count (mset xs) a = (if a \<in> set xs then 1 else 0)" for a
  proof (cases "a \<in> set xs")
    case True
    then have "0 < count (mset xs) a" by simp
    moreover have "count (mset xs) a \<le> 1" using a by simp
    ultimately have "count (mset xs) a = 1" by linarith
    then show ?thesis using True by simp
  next
    case False
    then show ?thesis by (simp add: count_eq_zero_iff)
  qed
  then show "distinct xs" by (simp add: distinct_count_atmost_1)
qed

lemma distinct_mset_sub: "mset xs \<subseteq># mset ys \<Longrightarrow> distinct ys \<Longrightarrow> distinct xs"
proof -
  assume s: "mset xs \<subseteq># mset ys" and d: "distinct ys"
  have "count (mset xs) a \<le> 1" for a
  proof -
    have "count (mset xs) a \<le> count (mset ys) a" using s by (rule mset_subset_eq_count)
    also have "\<dots> \<le> 1" using d by (simp add: distinct_count_atmost_1)
    finally show ?thesis .
  qed
  then show ?thesis unfolding distinct_iff_count_le1 by simp
qed

lemma zoneEventIDs_sub: "mset (map eventID (zoneEvents r)) \<subseteq># mset (nodeIDs r)"
proof -
  have "mset (map eventID (zoneEvents r)) =
        mset (concat (map (\<lambda>gw. map eventID (listenerEvents gw)) (Gateways r)))
        + mset (map rtUID (HTTPRoutes r)) + mset (map dnsUID (DNSRecords r))"
    by (simp add: zoneEventIDs_eq)
  also have "\<dots> \<subseteq># mset (concat (map (\<lambda>gw. gwUID gw # map eventID (listenerEvents gw)) (Gateways r)))
        + mset (map rtUID (HTTPRoutes r)) + mset (map dnsUID (DNSRecords r))"
    using mset_concat_tl[of "\<lambda>gw. map eventID (listenerEvents gw)" "Gateways r" gwUID]
    by (simp add: subset_mset.add_mono)
  also have "\<dots> \<subseteq># mset (nodeIDs r)"
    by (simp add: nodeIDs_eq)
  finally show ?thesis .
qed

lemma distinct_zoneEvents: "distinct (nodeIDs r) \<Longrightarrow> distinct (map eventID (zoneEvents r))"
  by (rule distinct_mset_sub[OF zoneEventIDs_sub])

lemma setDNSZone_simps [simp]:
  "nID (setDNSZone pz n) = nID n"
  "nDNSZone (setDNSZone pz n) = (case pz (nID n) of None \<Rightarrow> nDNSZone n | Some z \<Rightarrow> z)"
  by (simp_all add: setDNSZone_def split: option.splits)

lemma graph_nodeIDs: "map nID (gNodes (buildGraph ro r)) = nodeIDs r"
  by (simp add: buildGraph_def Let_def nodeIDs_def o_def)

lemma fold_dns_events: "foldl zoneStep st (map DnsEvent ds) = foldl dnsZoneStep st ds"
  by (induction ds arbitrary: st) simp_all

lemma fold_route_events: "foldl zoneStep st (map RouteEvent rs) = foldl routeZoneStep st rs"
  by (induction rs arbitrary: st) simp_all

lemma fold_listener_events: "foldl zoneStep st (listenerEvents gw) = gatewayZoneStep st gw"
proof -
  have "foldl zoneStep st (map (ListenerEvent uid) ils) = foldl (listenerZoneStep uid) st ils" for uid ils
    by (induction ils arbitrary: st) simp_all
  then show ?thesis by (simp add: listenerEvents_def gatewayZoneStep_def)
qed

lemma fold_gateway_events:
  "foldl zoneStep st (concat (map listenerEvents gws)) = foldl gatewayZoneStep st gws"
  by (induction gws arbitrary: st) (simp_all add: fold_listener_events)

lemma dnsPass_after: "dnsPass r = zonesAfter r (length (DNSRecords r))"
  by (simp add: dnsPass_def zonesAfter_def zoneEvents_def fold_dns_events)

lemma routePass_after: "routePass r = zonesAfter r (length (DNSRecords r) + length (HTTPRoutes r))"
  by (simp add: routePass_def dnsPass_def zonesAfter_def zoneEvents_def fold_dns_events fold_route_events)

lemma listenerPass_events: "listenerPass r = foldl zoneStep emptyZones (zoneEvents r)"
  by (simp add: listenerPass_def routePass_def dnsPass_def zoneEvents_def fold_dns_events
        fold_route_events fold_gateway_events)

lemma listenerPass_after: "listenerPass r = zonesAfter r (length (zoneEvents r))"
  by (simp add: listenerPass_events zonesAfter_def)

lemma zonesAfter_all: "length (zoneEvents r) \<le> k \<Longrightarrow> zonesAfter r k = listenerPass r"
  by (simp add: zonesAfter_def listenerPass_events)

lemma listenerPass_inv:
  assumes "distinct (nodeIDs r)"
  shows "zrel (listenerPass r)" "zdist (listenerPass r)"
  using assms fold_zrel[OF zrel_empty] fold_zdist[OF distinct_zoneEvents]
  by (simp_all add: listenerPass_events)

lemma listenerPass_members_distinct:
  assumes "distinct (nodeIDs r)" "e \<in> set (dnsZoneMap (listenerPass r))"
  shows "distinct (snd e)"
proof -
  have zr: "zrel (listenerPass r)" and zd: "zdist (listenerPass r)"
    using listenerPass_inv[OF assms(1)] by auto
  have "zoneMembers (dnsZoneMap (listenerPass r)) (fst e) = snd e"
    using zr assms(2) entry_members[of "dnsZoneMap (listenerPass r)" "fst e" "snd e"]
    by (simp add: zrel_def)
  then show ?thesis using zone_members_distinct[OF zr zd, of "fst e"] by simp
qed

lemma graph_zone_entries:
  assumes "validOrder ro" "Z \<in> set (gDNSZones (buildGraph ro r))"
  shows "(zName Z, zNodes Z) \<in> set (dnsZoneMap (listenerPass r))"
proof -
  have m: "mset (ro (dnsZoneMap (listenerPass r))) = mset (dnsZoneMap (listenerPass r))"
    using assms(1) by (simp add: validOrder_def)
  have "(zName Z, zNodes Z) \<in> set (map (\<lambda>z. (zName z, zNodes z)) (buildZones ro (dnsZoneMap (listenerPass r))))"
    using assms(2) by (auto simp: buildGraph_def Let_def)
  then show ?thesis using buildZones_entries_set[of ro "dnsZoneMap (listenerPass r)"] m by auto
qed






lemma route_hostnames_unchanged [simp]:
  "dnsRecordHostnames (routeZoneStep st route) = dnsRecordHostnames st"
  using routeHostnames_assigns[of "rtUID route" st "rtHostnames route"]
  unfolding routeZoneStep_def by blast


lemma fold_route_hostnames [simp]:
  "dnsRecordHostnames (foldl routeZoneStep st rs) = dnsRecordHostnames st"
  by (induction rs arbitrary: st) simp_all







section \<open>Properties of the node builder\<close>

lemma wfBuild_empty: "wfBuild emptyBuild"
  by (simp add: wfBuild_def emptyBuild_def)

lemma wfBuild_addNode: "wfBuild b \<Longrightarrow> wfBuild (addNode n b)"
  by (auto simp: wfBuild_def nth_append less_Suc_eq)

lemma wfBuild_addLink: "wfBuild b \<Longrightarrow> wfBuild (addLink l b)"
  by (simp add: wfBuild_def)

lemma wfBuild_links_upd: "wfBuild b \<Longrightarrow> wfBuild (b\<lparr>bLinks := ls\<rparr>)"
  by (simp add: wfBuild_def)

lemma wfBuild_addListener: "wfBuild b \<Longrightarrow> wfBuild (addListener gw b il)"
  by (simp add: addListener_def Let_def wfBuild_addNode wfBuild_addLink)

lemma wfBuild_fold:
  assumes "\<And>b x. wfBuild b \<Longrightarrow> wfBuild (f b x)"
  shows "wfBuild b \<Longrightarrow> wfBuild (foldl f b xs)"
  by (induction xs arbitrary: b) (simp_all add: assms)

lemma wfBuild_classRefLink: "wfBuild b \<Longrightarrow> wfBuild (classRefLink gcs gw b)"
  by (simp add: classRefLink_def wfBuild_addLink split: option.splits)

lemma wfBuild_addGateway: "wfBuild b \<Longrightarrow> wfBuild (addGateway gcs b gw)"
  unfolding addGateway_def
  by (intro wfBuild_classRefLink wfBuild_fold wfBuild_addListener wfBuild_addNode)

lemma wfBuild_parentRefLoop: "wfBuild b \<Longrightarrow> wfBuild (parentRefLoop route parentRef gws b)"
  by (induction gws arbitrary: b) (simp_all add: wfBuild_addLink)

lemma wfBuild_addRoute: "wfBuild b \<Longrightarrow> wfBuild (addRoute gws b route)"
  unfolding addRoute_def
  by (intro wfBuild_fold wfBuild_parentRefLoop wfBuild_addNode)

lemma wfBuild_addDNSRecord: "wfBuild b \<Longrightarrow> wfBuild (addDNSRecord gws b dns)"
  by (simp add: addDNSRecord_def Let_def wfBuild_links_upd wfBuild_addNode)

lemma wfBuild_beforeDNS: "wfBuild (nodesBeforeDNS r)"
  unfolding nodesBeforeDNS_def
  by (intro wfBuild_fold wfBuild_addNode wfBuild_addGateway wfBuild_addRoute wfBuild_empty)

lemma buildNodes_split:
  "buildNodes r =
     foldl (\<lambda>b svc. addNode (serviceNode svc) b)
       (foldl (addDNSRecord (Gateways r)) (nodesBeforeDNS r) (DNSRecords r)) (Services r)"
  by (simp add: buildNodes_def nodesBeforeDNS_def Let_def)

lemma wfBuild_buildNodes: "wfBuild (buildNodes r)"
  unfolding buildNodes_split
  by (intro wfBuild_fold wfBuild_addNode wfBuild_addDNSRecord wfBuild_beforeDNS)

lemma keeps_refl: "keeps b b" by (simp add: keeps_def)
lemma keeps_trans: "keeps a b \<Longrightarrow> keeps b c \<Longrightarrow> keeps a c" by (simp add: keeps_def)
lemma keeps_addNode: "keeps b (addNode n b)" by (simp add: keeps_def)
lemma keeps_addLink: "keeps b (addLink l b)" by (simp add: keeps_def)

lemma keeps_fold:
  assumes "\<And>b x. keeps b (f b x)"
  shows "keeps b (foldl f b xs)"
proof (induction xs arbitrary: b)
  case Nil show ?case by (simp add: keeps_refl)
next
  case (Cons x xs)
  show ?case using keeps_trans[OF assms[of b x] Cons[of "f b x"]] by simp
qed

lemma keeps_addListener: "keeps b (addListener gw b il)"
  by (simp add: addListener_def Let_def keeps_def)

lemma keeps_classRefLink: "keeps b (classRefLink gcs gw b)"
  by (simp add: classRefLink_def keeps_def split: option.splits)

lemma keeps_addGateway: "keeps b (addGateway gcs b gw)"
  unfolding addGateway_def
  by (rule keeps_trans[OF keeps_addNode keeps_trans[OF keeps_fold[of "addListener gw", OF keeps_addListener] keeps_classRefLink]])

lemma nodeMap_parentRefLoop [simp]: "nodeMap (parentRefLoop route parentRef gws b) = nodeMap b"
  by (induction gws arbitrary: b) simp_all

lemma keeps_addRoute: "keeps b (addRoute gws b route)"
proof -
  have "nodeMap (foldl (\<lambda>b' parentRef. parentRefLoop route parentRef gws b') b0 prs) = nodeMap b0" for b0 prs
    by (induction prs arbitrary: b0) simp_all
  then show ?thesis by (simp add: addRoute_def keeps_def)
qed

lemma keeps_addDNSRecord: "keeps b (addDNSRecord gws b dns)"
  by (simp add: addDNSRecord_def Let_def keeps_def)

lemma fold_addListener_map:
  "il \<in> set ils \<Longrightarrow> nodeMap (foldl (addListener gw) b ils) (listenerID (gwUID gw) (fst il)) \<noteq> None"
proof (induction ils arbitrary: b rule: rev_induct)
  case Nil then show ?case by simp
next
  case (snoc x xs)
  show ?case
  proof (cases "il = x")
    case True
    then show ?thesis by (simp add: addListener_def Let_def listenerNode_def)
  next
    case False
    then have "il \<in> set xs" using snoc.prems by auto
    from snoc.IH[OF this, of b] show ?thesis
      using keeps_addListener[of "foldl (addListener gw) b xs" gw x] by (simp add: keeps_def)
  qed
qed

lemma emitted_keeps: "emitted gw b \<Longrightarrow> keeps b b' \<Longrightarrow> emitted gw b'"
  by (simp add: emitted_def keeps_def)

lemma emitted_addGateway: "emitted gw (addGateway gcs b gw)"
proof -
  let ?b1 = "foldl (addListener gw) (addNode (gatewayNode gw) b) (enumerate 0 (gwListeners gw))"
  have g: "nodeMap ?b1 (gwUID gw) \<noteq> None"
    using keeps_fold[of "addListener gw" "addNode (gatewayNode gw) b", OF keeps_addListener]
    by (simp add: keeps_def gatewayNode_def plainNode_def)
  have l: "nodeMap ?b1 (listenerID (gwUID gw) i) \<noteq> None" if "i < length (gwListeners gw)" for i
  proof -
    have "(i, gwListeners gw ! i) \<in> set (enumerate 0 (gwListeners gw))"
      using that by (simp add: in_set_enumerate_eq)
    from fold_addListener_map[OF this] show ?thesis by simp
  qed
  have "emitted gw ?b1" using g l by (simp add: emitted_def)
  then show ?thesis unfolding addGateway_def using keeps_classRefLink by (rule emitted_keeps)
qed

lemma emitted_fold_addGateway:
  "gw \<in> set gws \<Longrightarrow> emitted gw (foldl (addGateway gcs) b gws)"
proof (induction gws arbitrary: b rule: rev_induct)
  case Nil then show ?case by simp
next
  case (snoc x xs)
  show ?case
  proof (cases "gw = x")
    case True
    then show ?thesis by (simp add: emitted_addGateway)
  next
    case False
    then have "gw \<in> set xs" using snoc.prems by auto
    from snoc.IH[OF this, of b] show ?thesis
      using keeps_addGateway emitted_keeps by simp
  qed
qed

lemma emitted_beforeDNS:
  assumes "gw \<in> set (Gateways r)"
  shows "emitted gw (nodesBeforeDNS r)"
proof -
  let ?b2 = "foldl (addGateway (GatewayClasses r))
             (foldl (\<lambda>b gc. addNode (gatewayClassNode gc) b) emptyBuild (GatewayClasses r))
             (Gateways r)"
  let ?b3 = "foldl (addRoute (Gateways r)) ?b2 (HTTPRoutes r)"
  have e2: "emitted gw ?b2" using assms by (rule emitted_fold_addGateway)
  have k3: "keeps ?b2 ?b3" by (rule keeps_fold) (rule keeps_addRoute)
  have k4: "keeps ?b3 (foldl (\<lambda>b grant. addNode (grantNode grant) b) ?b3 (ReferenceGrants r))"
    by (rule keeps_fold) (rule keeps_addNode)
  show ?thesis unfolding nodesBeforeDNS_def
    using emitted_keeps[OF emitted_keeps[OF e2 k3] k4] .
qed

lemma emitted_dns_state:
  "gw \<in> set (Gateways r) \<Longrightarrow>
   emitted gw (addNode (dnsNode dns) (foldl (addDNSRecord (Gateways r)) (nodesBeforeDNS r) ds))"
proof -
  assume g: "gw \<in> set (Gateways r)"
  let ?b = "foldl (addDNSRecord (Gateways r)) (nodesBeforeDNS r) ds"
  have k: "keeps (nodesBeforeDNS r) ?b" by (rule keeps_fold) (rule keeps_addDNSRecord)
  show ?thesis using emitted_keeps[OF emitted_keeps[OF emitted_beforeDNS[OF g] k] keeps_addNode] .
qed

lemma wfBuild_dns_state:
  "wfBuild (addNode (dnsNode dns) (foldl (addDNSRecord (Gateways r)) (nodesBeforeDNS r) ds))"
  by (intro wfBuild_addNode wfBuild_fold wfBuild_addDNSRecord wfBuild_beforeDNS)

lemma wfBuild_idx:
  "wfBuild b \<Longrightarrow> nodeMap b k \<noteq> None \<Longrightarrow> idx (nodeMap b) k < length (bNodes b) \<and> nID (bNodes b ! idx (nodeMap b) k) = k"
  by (auto simp: wfBuild_def idx_def)

section \<open>The pruning pass inside buildGraph\<close>

lemma keptEntry_iff:
  "keptEntry m e \<longleftrightarrow>
     \<not> (\<exists>e' \<in> set m. zoneDepth (fst e) < zoneDepth (fst e') \<and> mset (snd e') = mset (snd e))"
  by (simp add: keptEntry_def list_ex_iff)

lemma dropped_has_kept:
  assumes e: "e \<in> set m" and nk: "\<not> keptEntry m e"
  shows "\<exists>e' \<in> set m. keptEntry m e' \<and> zoneDepth (fst e) < zoneDepth (fst e')
            \<and> mset (snd e') = mset (snd e)"
proof -
  define S where "S = {e' \<in> set m. zoneDepth (fst e) < zoneDepth (fst e') \<and> mset (snd e') = mset (snd e)}"
  have fin: "finite S" by (simp add: S_def)
  have ne: "S \<noteq> {}" using nk unfolding keptEntry_iff S_def by blast
  define M where "M = Max ((\<lambda>x. zoneDepth (fst x)) ` S)"
  have "M \<in> (\<lambda>x. zoneDepth (fst x)) ` S" unfolding M_def using fin ne by (intro Max_in) auto
  then obtain e' where e': "e' \<in> S" "zoneDepth (fst e') = M" by auto
  have mx: "zoneDepth (fst x) \<le> M" if "x \<in> S" for x
    unfolding M_def using fin that by (intro Max_ge) auto
  have "keptEntry m e'"
    unfolding keptEntry_iff
  proof
    assume "\<exists>e'' \<in> set m. zoneDepth (fst e') < zoneDepth (fst e'') \<and> mset (snd e'') = mset (snd e')"
    then obtain e'' where e'': "e'' \<in> set m" "zoneDepth (fst e') < zoneDepth (fst e'')"
      "mset (snd e'') = mset (snd e')" by auto
    then have "e'' \<in> S" using e'(1) by (auto simp: S_def)
    then show False using mx e'(2) e''(2) by fastforce
  qed
  then show ?thesis using e'(1) by (auto simp: S_def)
qed

lemma emitted_entries:
  assumes "validOrder ro"
  shows "(\<lambda>Z. (zName Z, zNodes Z)) ` set (gDNSZones (buildGraph ro r)) =
         {e \<in> set (dnsZoneMap (listenerPass r)). keptEntry (dnsZoneMap (listenerPass r)) e}"
proof -
  have m: "mset (ro (dnsZoneMap (listenerPass r))) = mset (dnsZoneMap (listenerPass r))"
    using assms by (simp add: validOrder_def)
  show ?thesis
    using buildZones_entries_set[of ro "dnsZoneMap (listenerPass r)"] m
    by (simp add: buildGraph_def Let_def)
qed

lemma emitted_name_iff:
  assumes vo: "validOrder ro" and dk: "distinct (map fst (dnsZoneMap (listenerPass r)))"
    and e: "e \<in> set (dnsZoneMap (listenerPass r))"
  shows "fst e \<in> zName ` set (gDNSZones (buildGraph ro r)) \<longleftrightarrow> keptEntry (dnsZoneMap (listenerPass r)) e"
proof
  assume "fst e \<in> zName ` set (gDNSZones (buildGraph ro r))"
  then obtain Z where Z: "Z \<in> set (gDNSZones (buildGraph ro r))" "zName Z = fst e" by auto
  then have "(zName Z, zNodes Z) \<in> (\<lambda>Z. (zName Z, zNodes Z)) ` set (gDNSZones (buildGraph ro r))" by blast
  then have k: "(zName Z, zNodes Z) \<in> set (dnsZoneMap (listenerPass r))"
     "keptEntry (dnsZoneMap (listenerPass r)) (zName Z, zNodes Z)"
    unfolding emitted_entries[OF vo] by auto
  have "(fst e, snd e) \<in> set (dnsZoneMap (listenerPass r))" using e by simp
  then have "zNodes Z = snd e" using k(1) Z(2) dk eq_key_imp_eq_value by metis
  then show "keptEntry (dnsZoneMap (listenerPass r)) e" using k(2) Z(2) by simp
next
  assume "keptEntry (dnsZoneMap (listenerPass r)) e"
  then have "e \<in> (\<lambda>Z. (zName Z, zNodes Z)) ` set (gDNSZones (buildGraph ro r))"
    unfolding emitted_entries[OF vo] using e by simp
  then obtain Z where "Z \<in> set (gDNSZones (buildGraph ro r))" "e = (zName Z, zNodes Z)" by auto
  then show "fst e \<in> zName ` set (gDNSZones (buildGraph ro r))" by force
qed

lemma sorted_same_mset: "sorted (xs::int list) \<Longrightarrow> sorted ys \<Longrightarrow> mset xs = mset ys \<Longrightarrow> xs = ys"
  by (metis properties_for_sort)

lemma sorted_neg_rev:
  "sorted (map (\<lambda>x. - int (f x)) xs) \<Longrightarrow> sorted (rev (map f xs))"
  by (induction xs) (auto simp: sorted_append)

lemma buildZones_depths:
  "map (\<lambda>Z. - int (zoneDepth (zName Z))) (buildZones ro m) =
     map (\<lambda>zi. - int (ziDepth zi)) (filter (shouldCreateZone (sortedZones ro m)) (sortedZones ro m))"
proof -
  have "map (\<lambda>Z. - int (zoneDepth (zName Z))) (buildZones ro m) =
        map (\<lambda>e. - int (zoneDepth (fst e))) (map (\<lambda>z. (zName z, zNodes z)) (buildZones ro m))"
    by (simp add: o_def)
  also have "\<dots> = map (\<lambda>zi. - int (zoneDepth (ziName zi)))
                     (filter (shouldCreateZone (sortedZones ro m)) (sortedZones ro m))"
    by (simp add: buildZones_def Let_def createZones_entries o_def)
  also have "\<dots> = map (\<lambda>zi. - int (ziDepth zi))
                     (filter (shouldCreateZone (sortedZones ro m)) (sortedZones ro m))"
    by (rule map_cong) (auto simp: sortedZones_def)
  finally show ?thesis .
qed

lemma buildZones_sorted: "sorted (map (\<lambda>Z. - int (zoneDepth (zName Z))) (buildZones ro m))"
  unfolding buildZones_depths by (rule sorted_filter) (rule sorted_sortedZones)

lemma buildZones_colors:
  "map zColor (buildZones ro m) =
     map (\<lambda>i. zoneColors ! (i mod length zoneColors)) [0 ..< length (buildZones ro m)]"
proof -
  have "length (buildZones ro m) = length (map (\<lambda>z. (zName z, zNodes z)) (buildZones ro m))" by simp
  also have "\<dots> = length (filter (shouldCreateZone (sortedZones ro m)) (sortedZones ro m))"
    by (simp only: buildZones_def Let_def createZones_entries length_map)
  finally show ?thesis
    using createZones_colors[of "sortedZones ro m" "sortedZones ro m" 0]
    by (simp add: buildZones_def Let_def)
qed

lemma validOrder_id: "validOrder id" by (simp add: validOrder_def)
lemma validOrder_rev: "validOrder rev" by (simp add: validOrder_def)
section \<open>The claims about the zone extraction\<close>

subsection \<open>Claim C1: the generic loop and the full hostname\<close>

text \<open>
  C1 says that the zone list of a hostname with at least two labels that is not OpenShift
  style never holds the hostname itself, and that \<open>zonesFor "api.example.com"\<close> is exactly
  \<open>["example.com"]\<close>. The source says the same of its generic loop: the comment above it
  reads \<open>api.service.example.com -> service.example.com, example.com\<close>, and the guard
  \<open>if i < len(parts)-1\<close> inside it is commented \<open>Don't include the full hostname itself\<close>.
  The loop starts at \<open>i = len(parts) - 2\<close> and counts down, so the guard holds in every
  pass and excludes nothing; the pass for \<open>i = 0\<close> joins all the labels. The code evaluated
  at \<open>api.example.com\<close>: the hostname has three labels, is not OpenShift style, the loop
  collects \<open>example.com\<close> and then \<open>api.example.com\<close>, and both are returned.
\<close>

theorem zonesFor_emits_full_hostname:
  "length (splitDot (trimWildcard ''api.example.com'')) = 3
   \<and> \<not> isOpenShiftStyleDomain (splitDot (trimWildcard ''api.example.com''))
   \<and> candidateZones (splitDot (trimWildcard ''api.example.com'')) = [''example.com'', ''api.example.com'']
   \<and> zonesFor ''api.example.com'' = [''example.com'', ''api.example.com'']
   \<and> ''api.example.com'' \<in> set (zonesFor ''api.example.com'')
   \<and> zonesFor ''api.example.com'' \<noteq> [''example.com'']"
  by code_simp

subsection \<open>Claim C3: an OpenShift style hostname of eight labels\<close>

text \<open>
  C3 as stated lists six zones for \<open>a.b.c.apps.cl.region.example.com\<close>, the first being
  \<open>b.c.apps.cl.region.example.com\<close>. The loop starts at \<open>appsIndex - 1 = 2\<close>, so that
  zone (the suffix from index 1) is not produced.
\<close>

theorem zonesFor_openshift_counterexample:
  "''b.c.apps.cl.region.example.com'' \<notin> set (zonesFor ''a.b.c.apps.cl.region.example.com'')"
  by code_simp

text \<open>
  C3, amended. \<open>zonesFor "a.b.c.apps.cl.region.example.com"\<close> is exactly the five zones
  from the label before \<open>apps\<close> down to the last two labels, in this order; the fallback
  zone \<open>c.apps.cl.region.example.com\<close> is already the first of them and is not added again.
\<close>

theorem zonesFor_openshift_eight_labels:
  "zonesFor ''a.b.c.apps.cl.region.example.com'' =
     [''c.apps.cl.region.example.com'', ''apps.cl.region.example.com'',
      ''cl.region.example.com'', ''region.example.com'', ''example.com'']
   \<and> extractDNSZone ''a.b.c.apps.cl.region.example.com'' = ''c.apps.cl.region.example.com''"
  by code_simp

subsection \<open>Claim C8: the zones of a hostname with at least two labels\<close>

text \<open>
  C8. For every hostname that has at least two labels once a leading \<open>*.\<close> is removed,
  \<open>zonesFor\<close> returns a list that is not empty and has no duplicates, and every entry
  is the dot-join of a suffix of the hostname's labels (of the stripped hostname, hence of
  the hostname as given too).
\<close>

theorem zonesFor_suffixes:
  assumes "2 \<le> length (splitDot (trimWildcard h))"
  shows "zonesFor h \<noteq> [] \<and> distinct (zonesFor h) \<and>
         (\<forall>z \<in> set (zonesFor h).
            \<exists>s. suffix s (splitDot (trimWildcard h)) \<and> suffix s (splitDot h) \<and> z = joinDot s)"
proof -
  have "\<exists>s. suffix s (splitDot (trimWildcard h)) \<and> suffix s (splitDot h) \<and> z = joinDot s"
    if zin: "z \<in> set (zonesFor h)" for z
  proof -
    obtain s where s: "suffix s (splitDot (trimWildcard h))" "z = joinDot s"
      using zones_suffix[OF zin] by blast
    have "suffix s (splitDot h)"
      using s(1) suffix_trimWildcard[of h] by (rule suffix_order.trans)
    with s show ?thesis by blast
  qed
  then show ?thesis using zones_nonempty_two[OF assms] zones_distinct by blast
qed

text \<open>The witness: a wildcard hostname of three labels.\<close>

theorem zonesFor_suffixes_witness:
  "2 \<le> length (splitDot (trimWildcard ''*.shop.example.com'')) \<and>
   zonesFor ''*.shop.example.com'' = [''example.com'', ''shop.example.com''] \<and>
   distinct (zonesFor ''*.shop.example.com'') \<and>
   (\<exists>s. suffix s (splitDot (trimWildcard ''*.shop.example.com'')) \<and>
        suffix s (splitDot ''*.shop.example.com'') \<and> ''example.com'' = joinDot s) \<and>
   (\<exists>s. suffix s (splitDot (trimWildcard ''*.shop.example.com'')) \<and>
        suffix s (splitDot ''*.shop.example.com'') \<and> ''shop.example.com'' = joinDot s)"
proof -
  have h: "2 \<le> length (splitDot (trimWildcard ''*.shop.example.com''))" by code_simp
  have v: "zonesFor ''*.shop.example.com'' = [''example.com'', ''shop.example.com'']" by code_simp
  have m: "''example.com'' \<in> set (zonesFor ''*.shop.example.com'')"
          "''shop.example.com'' \<in> set (zonesFor ''*.shop.example.com'')"
    unfolding v by simp_all
  show ?thesis using h v m zonesFor_suffixes[OF h] by blast
qed

section \<open>The claims about links\<close>

subsection \<open>Claim C5: the link of a DNSRecord\<close>

text \<open>
  C5 as stated sends the \<open>dnsRecord\<close> link from the gateway whenever the number of
  listeners whose hostname is the DNS name is not exactly one. With two such listeners
  the listener loop breaks at the first of them: in \<open>exTwoListeners\<close> the nodes are the
  gateway (index 0), its two listeners (1 and 2) and the DNSRecord (3), and the link to
  the record starts at node 1, a listener, not at the gateway.
\<close>

theorem dnsLink_two_listeners_counterexample:
  "map listenerHostname (gwListeners (hd (Gateways exTwoListeners))) = [Some ''a.com'', Some ''a.com'']
   \<and> map nType (gNodes (buildGraph id exTwoListeners)) = [''Gateway'', ''Listener'', ''Listener'', ''DNSRecord'']
   \<and> map nHostname (gNodes (buildGraph id exTwoListeners)) = [[], [], [], ''a.com'']
   \<and> gLinks (buildGraph id exTwoListeners) =
       [\<lparr>lSource = 0, lTarget = 1, lType = ''listener''\<rparr>,
        \<lparr>lSource = 0, lTarget = 2, lType = ''listener''\<rparr>,
        \<lparr>lSource = 1, lTarget = 3, lType = ''dnsRecord''\<rparr>]"
  by code_simp


text \<open>
  C5, amended. Let a DNSRecord of the collection carry a gateway-name label that names a
  gateway in the record's own namespace (\<open>gw\<close> is the first such gateway of the
  collection), and let \<open>before\<close> be the records handled before it. Handling the record
  appends exactly one link to the links built so far, of type \<open>dnsRecord\<close>. Its target is
  the node of the record. Its source is \<open>dnsLinkSource gw n\<close>, \<open>n\<close> the DNS name with a
  trailing dot removed: the node of the first listener of \<open>gw\<close> whose hostname is \<open>n\<close> if
  there is at least one such listener, and the node of the gateway if there is none.
\<close>

theorem dnsRecord_link_source:
  assumes recs: "DNSRecords resources = before @ dns # after"
    and label: "dnsGatewayLabel dns = Some g"
    and gw: "find (\<lambda>gw. gwName gw = g \<and> gwNamespace gw = dnsNamespace dns) (Gateways resources) = Some gw"
  shows "bLinks (addDNSRecord (Gateways resources)
                   (foldl (addDNSRecord (Gateways resources)) (nodesBeforeDNS resources) before) dns) =
           bLinks (foldl (addDNSRecord (Gateways resources)) (nodesBeforeDNS resources) before)
           @ [\<lparr>lSource = idx (nodeMap (addNode (dnsNode dns)
                                 (foldl (addDNSRecord (Gateways resources)) (nodesBeforeDNS resources) before)))
                         (dnsLinkSource gw (trimDot (dnsSpecName dns))),
               lTarget = idx (nodeMap (addNode (dnsNode dns)
                                 (foldl (addDNSRecord (Gateways resources)) (nodesBeforeDNS resources) before)))
                         (dnsUID dns),
               lType = ''dnsRecord''\<rparr>]
       \<and> nID (bNodes (addDNSRecord (Gateways resources)
                   (foldl (addDNSRecord (Gateways resources)) (nodesBeforeDNS resources) before) dns)
              ! idx (nodeMap (addNode (dnsNode dns)
                                 (foldl (addDNSRecord (Gateways resources)) (nodesBeforeDNS resources) before)))
                         (dnsLinkSource gw (trimDot (dnsSpecName dns))))
           = dnsLinkSource gw (trimDot (dnsSpecName dns))
       \<and> nID (bNodes (addDNSRecord (Gateways resources)
                   (foldl (addDNSRecord (Gateways resources)) (nodesBeforeDNS resources) before) dns)
              ! idx (nodeMap (addNode (dnsNode dns)
                                 (foldl (addDNSRecord (Gateways resources)) (nodesBeforeDNS resources) before)))
                         (dnsUID dns))
           = dnsUID dns"
proof -
  let ?gws = "Gateways resources"
  let ?b = "foldl (addDNSRecord ?gws) (nodesBeforeDNS resources) before"
  let ?n = "trimDot (dnsSpecName dns)"
  define b1 where "b1 = addNode (dnsNode dns) ?b"
  define m where "m = nodeMap b1"
  have gin: "gw \<in> set ?gws" using gw by (auto simp: find_Some_iff)
  have em: "emitted gw b1" unfolding b1_def using gin by (rule emitted_dns_state)
  have wf: "wfBuild b1" unfolding b1_def by (rule wfBuild_dns_state)
  have ls: "\<forall>i < length (gwListeners gw). m (listenerID (gwUID gw) i) \<noteq> None"
    and gn: "m (gwUID gw) \<noteq> None"
    using em by (simp_all add: emitted_def m_def)
  have src: "m (dnsLinkSource gw ?n) \<noteq> None"
  proof (cases "find (\<lambda>(i, l). listenerHostname l = Some ?n) (enumerate 0 (gwListeners gw))")
    case None
    then show ?thesis using gn by (simp add: dnsLinkSource_def)
  next
    case (Some il)
    obtain i l where il: "il = (i, l)" by (cases il)
    obtain k where "k < length (enumerate 0 (gwListeners gw))" "enumerate 0 (gwListeners gw) ! k = (i, l)"
      using Some il unfolding find_Some_iff by auto
    then have "(i, l) \<in> set (enumerate 0 (gwListeners gw))" using nth_mem by metis
    then have "i < length (gwListeners gw)" by (simp add: in_set_enumerate_eq)
    then show ?thesis using Some il ls by (simp add: dnsLinkSource_def)
  qed
  have tgt: "m (dnsUID dns) \<noteq> None" by (simp add: m_def b1_def)
  have links: "dnsLinks ?gws m dns =
      [\<lparr>lSource = idx m (dnsLinkSource gw ?n), lTarget = idx m (dnsUID dns), lType = ''dnsRecord''\<rparr>]"
    unfolding dnsLinks_emitted[OF label gw ls gn] dnsLinkSource_def
    by (simp split: option.splits)
  have nodes: "bNodes (addDNSRecord ?gws ?b dns) = bNodes b1"
    by (simp add: addDNSRecord_def Let_def b1_def)
  have 1: "bLinks (addDNSRecord ?gws ?b dns) = bLinks ?b @ dnsLinks ?gws m dns"
    by (simp add: addDNSRecord_def Let_def m_def b1_def)
  have s: "nID (bNodes b1 ! idx m (dnsLinkSource gw ?n)) = dnsLinkSource gw ?n"
    using wfBuild_idx[OF wf, of "dnsLinkSource gw ?n"] src by (simp add: m_def)
  have t: "nID (bNodes b1 ! idx m (dnsUID dns)) = dnsUID dns"
    using wfBuild_idx[OF wf, of "dnsUID dns"] tgt by (simp add: m_def)
  show ?thesis
    using 1 links s t unfolding nodes m_def b1_def by (simp only:)
qed


text \<open>
  The witness: the record of \<open>exTwoListeners\<close>, the only one of its collection. Two
  listeners of the gateway have its DNS name; the link starts at the first of them.
\<close>

theorem dnsRecord_link_source_witness:
  "DNSRecords exTwoListeners = [] @ hd (DNSRecords exTwoListeners) # []
   \<and> dnsGatewayLabel (hd (DNSRecords exTwoListeners)) = Some ''gw''
   \<and> find (\<lambda>gw. gwName gw = ''gw'' \<and> gwNamespace gw = dnsNamespace (hd (DNSRecords exTwoListeners)))
        (Gateways exTwoListeners) = Some (hd (Gateways exTwoListeners))
   \<and> dnsLinkSource (hd (Gateways exTwoListeners)) (trimDot (dnsSpecName (hd (DNSRecords exTwoListeners))))
       = ''g-listener-0''
   \<and> bLinks (nodesBeforeDNS exTwoListeners) =
       [\<lparr>lSource = 0, lTarget = 1, lType = ''listener''\<rparr>,
        \<lparr>lSource = 0, lTarget = 2, lType = ''listener''\<rparr>]
   \<and> bLinks (addDNSRecord (Gateways exTwoListeners) (nodesBeforeDNS exTwoListeners)
              (hd (DNSRecords exTwoListeners))) =
       [\<lparr>lSource = 0, lTarget = 1, lType = ''listener''\<rparr>,
        \<lparr>lSource = 0, lTarget = 2, lType = ''listener''\<rparr>,
        \<lparr>lSource = 1, lTarget = 3, lType = ''dnsRecord''\<rparr>]"
proof -
  let ?d = "hd (DNSRecords exTwoListeners)"
  let ?g = "hd (Gateways exTwoListeners)"
  let ?b = "nodesBeforeDNS exTwoListeners"
  have r: "DNSRecords exTwoListeners = [] @ ?d # []" by (simp add: exTwoListeners_def noResources_def)
  have a: "dnsGatewayLabel ?d = Some ''gw''" by code_simp
  have b: "find (\<lambda>gw. gwName gw = ''gw'' \<and> gwNamespace gw = dnsNamespace ?d)
        (Gateways exTwoListeners) = Some ?g" by code_simp
  have s: "dnsLinkSource ?g (trimDot (dnsSpecName ?d)) = ''g-listener-0''" by code_simp
  have l0: "bLinks ?b = [\<lparr>lSource = 0, lTarget = 1, lType = ''listener''\<rparr>,
        \<lparr>lSource = 0, lTarget = 2, lType = ''listener''\<rparr>]" by code_simp
  have i1: "idx (nodeMap (addNode (dnsNode ?d) ?b)) ''g-listener-0'' = 1" by code_simp
  have i2: "idx (nodeMap (addNode (dnsNode ?d) ?b)) (dnsUID ?d) = 3" by code_simp
  from dnsRecord_link_source[OF r a b]
  have "bLinks (addDNSRecord (Gateways exTwoListeners) (foldl (addDNSRecord (Gateways exTwoListeners)) ?b []) ?d) =
        bLinks (foldl (addDNSRecord (Gateways exTwoListeners)) ?b [])
        @ [\<lparr>lSource = idx (nodeMap (addNode (dnsNode ?d) (foldl (addDNSRecord (Gateways exTwoListeners)) ?b [])))
                         (dnsLinkSource ?g (trimDot (dnsSpecName ?d))),
            lTarget = idx (nodeMap (addNode (dnsNode ?d) (foldl (addDNSRecord (Gateways exTwoListeners)) ?b [])))
                         (dnsUID ?d),
            lType = ''dnsRecord''\<rparr>]"
    by (rule conjunct1)
  then have f: "bLinks (addDNSRecord (Gateways exTwoListeners) ?b ?d) =
       [\<lparr>lSource = 0, lTarget = 1, lType = ''listener''\<rparr>,
        \<lparr>lSource = 0, lTarget = 2, lType = ''listener''\<rparr>,
        \<lparr>lSource = 1, lTarget = 3, lType = ''dnsRecord''\<rparr>]"
    unfolding foldl_Nil s i1 i2 l0 by simp
  show ?thesis using r a b s l0 f by (intro conjI)
qed
subsection \<open>Claim C7: parent references with an empty name\<close>




section \<open>The claims about the zone passes\<close>

subsection \<open>Claim C9: the primary zone is written once\<close>

text \<open>
  C9 as stated assumes only that the ids of the input resources are distinct. The ids of the
  listener nodes are derived from the gateway ids, and an input resource can carry such an
  id: in \<open>exOverwrite\<close> the input ids \<open>g\<close>, \<open>g-listener-0\<close> and \<open>d2\<close> are distinct, the
  DNSRecord pass records \<open>x.com\<close> for the id \<open>g-listener-0\<close>, and the listener pass, whose
  branch for a hostname with a DNSRecord writes the primary zone without asking whether
  one is set, changes it to \<open>y.org\<close>; the node of the record ends with \<open>y.org\<close>.
\<close>

theorem primary_zone_overwrite_counterexample:
  "distinct (inputIDs exOverwrite)
   \<and> nodePrimaryZone (dnsPass exOverwrite) ''g-listener-0'' = Some ''x.com''
   \<and> nodePrimaryZone (routePass exOverwrite) ''g-listener-0'' = Some ''x.com''
   \<and> nodePrimaryZone (listenerPass exOverwrite) ''g-listener-0'' = Some ''y.org''
   \<and> map nID (gNodes (buildGraph id exOverwrite)) = [''g'', ''g-listener-0'', ''g-listener-0'', ''d2'']
   \<and> map nType (gNodes (buildGraph id exOverwrite)) = [''Gateway'', ''Listener'', ''DNSRecord'', ''DNSRecord'']
   \<and> map nDNSZone (gNodes (buildGraph id exOverwrite)) = [[], ''y.org'', ''y.org'', ''y.org'']"
  by code_simp

text \<open>
  C9, amended. Assume that all node ids of the snapshot are distinct: the ids of the input
  resources together with the listener ids derived from them. Then the primary zone of
  every node id is assigned at most once: a primary zone recorded after any number of steps
  of the three passes is still the recorded one after any later step; in particular what
  the DNSRecord pass recorded is unchanged by the route pass, and what these two recorded is
  unchanged by the listener pass. The \<open>DNSZone\<close> written to a node is the first primary
  zone recorded for its id.
\<close>

theorem primary_zone_write_once:
  assumes "distinct (map nID (gNodes (buildGraph rangeOrder resources)))"
  shows "(\<forall>j k. j \<le> k \<longrightarrow>
            nodePrimaryZone (zonesAfter resources j) \<subseteq>\<^sub>m nodePrimaryZone (zonesAfter resources k))
       \<and> nodePrimaryZone (dnsPass resources) \<subseteq>\<^sub>m nodePrimaryZone (routePass resources)
       \<and> nodePrimaryZone (routePass resources) \<subseteq>\<^sub>m nodePrimaryZone (listenerPass resources)
       \<and> (\<forall>n \<in> set (gNodes (buildGraph rangeOrder resources)). \<forall>j z.
            nodePrimaryZone (zonesAfter resources j) (nID n) = Some z \<longrightarrow> nDNSZone n = z)"
proof -
  have d: "distinct (map eventID (zoneEvents resources))"
    using assms by (simp add: graph_nodeIDs distinct_zoneEvents)
  have mono: "nodePrimaryZone (zonesAfter resources j) \<subseteq>\<^sub>m nodePrimaryZone (zonesAfter resources k)"
    if "j \<le> k" for j k
    unfolding zonesAfter_def using d that by (rule fold_pz_mono)
  have p1: "nodePrimaryZone (dnsPass resources) \<subseteq>\<^sub>m nodePrimaryZone (routePass resources)"
    unfolding dnsPass_after routePass_after by (rule mono) simp
  have p2: "nodePrimaryZone (routePass resources) \<subseteq>\<^sub>m nodePrimaryZone (listenerPass resources)"
    unfolding routePass_after listenerPass_after by (rule mono) (simp add: zoneEvents_def)
  have fin: "nDNSZone n = z"
    if n: "n \<in> set (gNodes (buildGraph rangeOrder resources))"
      and z: "nodePrimaryZone (zonesAfter resources j) (nID n) = Some z" for n j z
  proof -
    have "nodePrimaryZone (zonesAfter resources j) \<subseteq>\<^sub>m
          nodePrimaryZone (zonesAfter resources (max j (length (zoneEvents resources))))"
      by (rule mono) simp
    then have "nodePrimaryZone (zonesAfter resources j) \<subseteq>\<^sub>m nodePrimaryZone (listenerPass resources)"
      by (simp add: zonesAfter_all)
    then have f: "nodePrimaryZone (listenerPass resources) (nID n) = Some z"
      using z by (metis domI map_le_def)
    obtain n0 where "n = setDNSZone (nodePrimaryZone (listenerPass resources)) n0"
      using n by (auto simp: buildGraph_def Let_def)
    then show ?thesis using f by simp
  qed
  show ?thesis using mono p1 p2 fin by blast
qed

text \<open>
  The witness: in \<open>exShop\<close> the record \<open>d1\<close> has its primary zone after the first step,
  still has it after all three, and its node carries it.
\<close>

theorem primary_zone_write_once_witness:
  "distinct (map nID (gNodes (buildGraph id exShop)))
   \<and> nodePrimaryZone (zonesAfter exShop 1) ''d1'' = Some ''example.com''
   \<and> nodePrimaryZone (zonesAfter exShop 3) ''d1'' = Some ''example.com''
   \<and> nodePrimaryZone (dnsPass exShop) \<subseteq>\<^sub>m nodePrimaryZone (routePass exShop)
   \<and> nodePrimaryZone (routePass exShop) \<subseteq>\<^sub>m nodePrimaryZone (listenerPass exShop)
   \<and> map nID (gNodes (buildGraph id exShop)) = [''g'', ''g-listener-0'', ''r1'', ''d1'']
   \<and> nDNSZone (gNodes (buildGraph id exShop) ! 3) = ''example.com''"
proof -
  have h: "distinct (map nID (gNodes (buildGraph id exShop)))" by code_simp
  note t = primary_zone_write_once[OF h]
  have a: "nodePrimaryZone (zonesAfter exShop 1) ''d1'' = Some ''example.com''" by code_simp
  have ids: "map nID (gNodes (buildGraph id exShop)) = [''g'', ''g-listener-0'', ''r1'', ''d1'']" by code_simp
  have n3: "gNodes (buildGraph id exShop) ! 3 \<in> set (gNodes (buildGraph id exShop))"
    by (rule nth_mem) code_simp
  have i3: "nID (gNodes (buildGraph id exShop) ! 3) = ''d1''" by code_simp
  have mono: "\<forall>j k. j \<le> k \<longrightarrow>
            nodePrimaryZone (zonesAfter exShop j) \<subseteq>\<^sub>m nodePrimaryZone (zonesAfter exShop k)"
    using t by (rule conjunct1)
  have fin: "\<forall>n \<in> set (gNodes (buildGraph id exShop)). \<forall>j z.
            nodePrimaryZone (zonesAfter exShop j) (nID n) = Some z \<longrightarrow> nDNSZone n = z"
    using t by (rule conjunct2[OF conjunct2[OF conjunct2]])
  have le: "nodePrimaryZone (zonesAfter exShop 1) \<subseteq>\<^sub>m nodePrimaryZone (zonesAfter exShop 3)"
    using mono[rule_format, of 1 3] by simp
  have p1: "nodePrimaryZone (dnsPass exShop) \<subseteq>\<^sub>m nodePrimaryZone (routePass exShop)"
    using t by (rule conjunct1[OF conjunct2])
  have p2: "nodePrimaryZone (routePass exShop) \<subseteq>\<^sub>m nodePrimaryZone (listenerPass exShop)"
    using t by (rule conjunct1[OF conjunct2[OF conjunct2]])
  have "nodePrimaryZone (zonesAfter exShop 1) ''d1'' = nodePrimaryZone (zonesAfter exShop 3) ''d1''"
  proof -
    have "''d1'' \<in> dom (nodePrimaryZone (zonesAfter exShop 1))"
      using a by (simp add: dom_def)
    with le[unfolded map_le_def] show ?thesis by (rule bspec)
  qed
  then have b: "nodePrimaryZone (zonesAfter exShop 3) ''d1'' = Some ''example.com''"
    using a by simp
  have c: "nDNSZone (gNodes (buildGraph id exShop) ! 3) = ''example.com''"
    using fin[rule_format, OF n3, of 1 "''example.com''"] i3 a by simp
  show ?thesis using h a b c ids p1 p2 by simp
qed

subsection \<open>Claim C10: no node occurs twice in a zone\<close>

text \<open>
  C10 as stated assumes only that the ids of the input resources are distinct. In
  \<open>exCollision\<close> they are (\<open>g\<close> and \<open>g-listener-0\<close>), but the route's id is also the id
  derived for the gateway's listener, and both are added to the zone \<open>b.com\<close>: its member
  list, in the map and in the emitted zone, holds \<open>g-listener-0\<close> twice.
\<close>

theorem zone_members_duplicate_counterexample:
  "distinct (inputIDs exCollision)
   \<and> dnsZoneMap (listenerPass exCollision) =
       [(''b.com'', [''g-listener-0'', ''g-listener-0'']), (''a.b.com'', [''g-listener-0''])]
   \<and> map zNodes (gDNSZones (buildGraph id exCollision)) =
       [[''g-listener-0''], [''g-listener-0'', ''g-listener-0'']]"
  by code_simp

text \<open>
  C10, amended. Assume that all node ids of the snapshot are distinct: the ids of the input
  resources together with the listener ids derived from them. Then no member list of the
  zone map has a duplicate, nor has any emitted zone (for every iteration order of the
  map), and for the member lists of the map \<open>slicesEqual\<close>, which compares with
  multiplicity, is equality of the member sets.
\<close>

theorem zone_members_no_duplicates:
  assumes "distinct (map nID (gNodes (buildGraph rangeOrder resources)))"
  shows "(\<forall>e \<in> set (dnsZoneMap (listenerPass resources)). distinct (snd e))
       \<and> (validOrder rangeOrder \<longrightarrow>
            (\<forall>Z \<in> set (gDNSZones (buildGraph rangeOrder resources)). distinct (zNodes Z)))
       \<and> (\<forall>e \<in> set (dnsZoneMap (listenerPass resources)).
            \<forall>e' \<in> set (dnsZoneMap (listenerPass resources)).
              slicesEqual (snd e) (snd e') \<longleftrightarrow> set (snd e) = set (snd e'))"
proof -
  have d: "distinct (nodeIDs resources)" using assms by (simp add: graph_nodeIDs)
  have a: "\<forall>e \<in> set (dnsZoneMap (listenerPass resources)). distinct (snd e)"
    using listenerPass_members_distinct[OF d] by blast
  have b: "distinct (zNodes Z)"
    if "validOrder rangeOrder" "Z \<in> set (gDNSZones (buildGraph rangeOrder resources))" for Z
    using graph_zone_entries[OF that] a by fastforce
  have c: "slicesEqual (snd e) (snd e') \<longleftrightarrow> set (snd e) = set (snd e')"
    if "e \<in> set (dnsZoneMap (listenerPass resources))" "e' \<in> set (dnsZoneMap (listenerPass resources))"
    for e e'
    using that a by (simp add: slicesEqual_mset set_eq_iff_mset_eq_distinct)
  show ?thesis using a b c by blast
qed

text \<open>The witness: the three zones of \<open>exShop\<close>.\<close>

theorem zone_members_no_duplicates_witness:
  "distinct (map nID (gNodes (buildGraph id exShop)))
   \<and> validOrder id
   \<and> dnsZoneMap (listenerPass exShop) =
       [(''example.com'', [''d1'', ''r1'', ''g-listener-0'']),
        (''shop.example.com'', [''d1'', ''r1'']),
        (''api.example.com'', [''g-listener-0''])]
   \<and> distinct [''d1'', ''r1'', ''g-listener-0'']
   \<and> map zNodes (gDNSZones (buildGraph id exShop)) =
       [[''d1'', ''r1''], [''g-listener-0''], [''d1'', ''r1'', ''g-listener-0'']]
   \<and> \<not> slicesEqual [''d1'', ''r1'', ''g-listener-0''] [''d1'', ''r1'']"
proof -
  have h: "distinct (map nID (gNodes (buildGraph id exShop)))" by code_simp
  have v: "validOrder id" by (simp add: validOrder_def)
  have m: "dnsZoneMap (listenerPass exShop) =
       [(''example.com'', [''d1'', ''r1'', ''g-listener-0'']),
        (''shop.example.com'', [''d1'', ''r1'']),
        (''api.example.com'', [''g-listener-0''])]" by code_simp
  have z: "map zNodes (gDNSZones (buildGraph id exShop)) =
       [[''d1'', ''r1''], [''g-listener-0''], [''d1'', ''r1'', ''g-listener-0'']]" by code_simp
  note t = zone_members_no_duplicates[OF h]
  have e1: "(''example.com'', [''d1'', ''r1'', ''g-listener-0'']) \<in> set (dnsZoneMap (listenerPass exShop))"
   and e2: "(''shop.example.com'', [''d1'', ''r1'']) \<in> set (dnsZoneMap (listenerPass exShop))"
    unfolding m by simp_all
  have 1: "distinct (snd (''example.com'', [''d1'', ''r1'', ''g-listener-0'']))"
    using t e1 by blast
  have 3: "slicesEqual (snd (''example.com'', [''d1'', ''r1'', ''g-listener-0''])) (snd (''shop.example.com'', [''d1'', ''r1'']))
          \<longleftrightarrow> set (snd (''example.com'', [''d1'', ''r1'', ''g-listener-0''])) = set (snd (''shop.example.com'', [''d1'', ''r1'']))"
    using t e1 e2 by blast
  have ne: "set [''d1'', ''r1'', ''g-listener-0''] \<noteq> set [''d1'', ''r1'']" by code_simp
  have 2: "\<not> slicesEqual [''d1'', ''r1'', ''g-listener-0''] [''d1'', ''r1'']"
    using 3 ne by simp
  show ?thesis using h v m z 1 2 by simp
qed

subsection \<open>Claim C6: a route whose hostname is a DNSRecord's name\<close>



section \<open>The claims about pruning and the snapshot\<close>

subsection \<open>Claim C4: which zones the pruning pass drops\<close>

text \<open>
  C4 as stated compares member sets. \<open>slicesEqual\<close> compares member lists with
  multiplicity, after a test of equal length. In \<open>exCollision\<close> (distinct input ids, a
  route bearing the id of a listener node) the zone \<open>b.com\<close> has the members
  \<open>[g-listener-0, g-listener-0]\<close> and the deeper zone \<open>a.b.com\<close> has \<open>[g-listener-0]\<close>: the
  member sets are equal, the deeper zone is retained, and \<open>b.com\<close> is retained too.
\<close>

theorem pruning_multiset_counterexample:
  "distinct (inputIDs exCollision) \<and> validOrder id
   \<and> map zName (gDNSZones (buildGraph id exCollision)) = [''a.b.com'', ''b.com'']
   \<and> map zNodes (gDNSZones (buildGraph id exCollision)) = [[''g-listener-0''], [''g-listener-0'', ''g-listener-0'']]
   \<and> zoneDepth ''b.com'' < zoneDepth ''a.b.com''
   \<and> set [''g-listener-0''] = set [''g-listener-0'', ''g-listener-0'']"
proof -
  have "distinct (inputIDs exCollision)" by code_simp
  moreover have "map zName (gDNSZones (buildGraph id exCollision)) = [''a.b.com'', ''b.com'']" by code_simp
  moreover have "map zNodes (gDNSZones (buildGraph id exCollision)) = [[''g-listener-0''], [''g-listener-0'', ''g-listener-0'']]" by code_simp
  moreover have "zoneDepth ''b.com'' < zoneDepth ''a.b.com''" by code_simp
  ultimately show ?thesis using validOrder_id by simp
qed

text \<open>
  C4, amended. Assume that all node ids of the snapshot are distinct. Then, for every
  iteration order of the zone map: a zone of the map is dropped (its name is not among the
  emitted zones) if and only if some emitted zone has strictly more labels and the same
  member set; so every dropped zone has a kept zone of greater depth with its member set;
  no two emitted zones of different depths have the same member set; and every emitted zone
  is a zone of the map with its member list.
\<close>

theorem pruning_keeps_deepest:
  assumes vo: "validOrder rangeOrder"
    and d: "distinct (map nID (gNodes (buildGraph rangeOrder resources)))"
  shows "(\<forall>e \<in> set (dnsZoneMap (listenerPass resources)).
            fst e \<notin> zName ` set (gDNSZones (buildGraph rangeOrder resources)) \<longleftrightarrow>
            (\<exists>Z \<in> set (gDNSZones (buildGraph rangeOrder resources)).
               zoneDepth (fst e) < zoneDepth (zName Z) \<and> set (zNodes Z) = set (snd e)))
       \<and> (\<forall>Z \<in> set (gDNSZones (buildGraph rangeOrder resources)).
            \<forall>Z' \<in> set (gDNSZones (buildGraph rangeOrder resources)).
              set (zNodes Z) = set (zNodes Z') \<longrightarrow> zoneDepth (zName Z) = zoneDepth (zName Z'))
       \<and> (\<forall>Z \<in> set (gDNSZones (buildGraph rangeOrder resources)).
            (zName Z, zNodes Z) \<in> set (dnsZoneMap (listenerPass resources)))"
proof -
  let ?m = "dnsZoneMap (listenerPass resources)"
  let ?zs = "gDNSZones (buildGraph rangeOrder resources)"
  have dn: "distinct (nodeIDs resources)" using d by (simp add: graph_nodeIDs)
  have dk: "distinct (map fst ?m)" using listenerPass_inv(1)[OF dn] by (simp add: zrel_def)
  have dm: "distinct (snd e)" if "e \<in> set ?m" for e
    using listenerPass_members_distinct[OF dn that] .
  have em: "(\<lambda>Z. (zName Z, zNodes Z)) ` set ?zs = {e \<in> set ?m. keptEntry ?m e}"
    by (rule emitted_entries[OF vo])
  have zin: "(zName Z, zNodes Z) \<in> set ?m \<and> keptEntry ?m (zName Z, zNodes Z)" if "Z \<in> set ?zs" for Z
    using em that by blast
  have a: "fst e \<notin> zName ` set ?zs \<longleftrightarrow>
            (\<exists>Z \<in> set ?zs. zoneDepth (fst e) < zoneDepth (zName Z) \<and> set (zNodes Z) = set (snd e))"
    if e: "e \<in> set ?m" for e
  proof
    assume "fst e \<notin> zName ` set ?zs"
    then have "\<not> keptEntry ?m e" using emitted_name_iff[OF vo dk e] by simp
    from dropped_has_kept[OF e this] obtain e' where e': "e' \<in> set ?m" "keptEntry ?m e'"
      "zoneDepth (fst e) < zoneDepth (fst e')" "mset (snd e') = mset (snd e)" by blast
    then have "e' \<in> (\<lambda>Z. (zName Z, zNodes Z)) ` set ?zs" unfolding em by simp
    then obtain Z where Z: "Z \<in> set ?zs" "e' = (zName Z, zNodes Z)" by auto
    have "set (zNodes Z) = set (snd e)" using e'(4) Z(2) by (metis mset_eq_setD snd_conv)
    then show "\<exists>Z \<in> set ?zs. zoneDepth (fst e) < zoneDepth (zName Z) \<and> set (zNodes Z) = set (snd e)"
      using Z e'(3) by auto
  next
    assume "\<exists>Z \<in> set ?zs. zoneDepth (fst e) < zoneDepth (zName Z) \<and> set (zNodes Z) = set (snd e)"
    then obtain Z where Z: "Z \<in> set ?zs" "zoneDepth (fst e) < zoneDepth (zName Z)"
      "set (zNodes Z) = set (snd e)" by auto
    have zm: "(zName Z, zNodes Z) \<in> set ?m" using zin[OF Z(1)] by simp
    have "mset (zNodes Z) = mset (snd e)"
      using Z(3) dm[OF e] dm[OF zm] by (simp add: set_eq_iff_mset_eq_distinct)
    then have "\<not> keptEntry ?m e" unfolding keptEntry_iff using zm Z(2) by force
    then show "fst e \<notin> zName ` set ?zs" using emitted_name_iff[OF vo dk e] by simp
  qed
  have c: "zoneDepth (zName Z) = zoneDepth (zName Z')"
    if Z: "Z \<in> set ?zs" and Z': "Z' \<in> set ?zs" and s: "set (zNodes Z) = set (zNodes Z')" for Z Z'
  proof -
    have ms: "mset (zNodes Z) = mset (zNodes Z')"
      using s dm[of "(zName Z, zNodes Z)"] dm[of "(zName Z', zNodes Z')"] zin[OF Z] zin[OF Z']
      by (simp add: set_eq_iff_mset_eq_distinct)
    have "\<not> zoneDepth (zName Z) < zoneDepth (zName Z')"
      using zin[OF Z] zin[OF Z'] ms unfolding keptEntry_iff by force
    moreover have "\<not> zoneDepth (zName Z') < zoneDepth (zName Z)"
      using zin[OF Z] zin[OF Z'] ms unfolding keptEntry_iff by force
    ultimately show ?thesis by simp
  qed
  show ?thesis using a c zin by blast
qed

text \<open>
  The witness: in \<open>exPrune\<close> the zone \<open>a.com\<close> is dropped, and the emitted zone
  \<open>x.a.com\<close> is deeper with the same member.
\<close>

theorem pruning_keeps_deepest_witness:
  "validOrder id \<and> distinct (map nID (gNodes (buildGraph id exPrune)))
   \<and> dnsZoneMap (listenerPass exPrune) = [(''a.com'', [''d1'']), (''x.a.com'', [''d1'']), (''b.org'', [''d2''])]
   \<and> map zName (gDNSZones (buildGraph id exPrune)) = [''x.a.com'', ''b.org'']
   \<and> (\<exists>Z \<in> set (gDNSZones (buildGraph id exPrune)).
          zoneDepth ''a.com'' < zoneDepth (zName Z) \<and> set (zNodes Z) = set [''d1''])"
proof -
  have h: "distinct (map nID (gNodes (buildGraph id exPrune)))" by code_simp
  have m: "dnsZoneMap (listenerPass exPrune) = [(''a.com'', [''d1'']), (''x.a.com'', [''d1'']), (''b.org'', [''d2''])]"
    by code_simp
  have n: "map zName (gDNSZones (buildGraph id exPrune)) = [''x.a.com'', ''b.org'']" by code_simp
  have e: "(''a.com'', [''d1'']) \<in> set (dnsZoneMap (listenerPass exPrune))" unfolding m by simp
  have "zName ` set (gDNSZones (buildGraph id exPrune)) = set (map zName (gDNSZones (buildGraph id exPrune)))"
    by simp
  then have out: "fst (''a.com'', [''d1'']) \<notin> zName ` set (gDNSZones (buildGraph id exPrune))"
    unfolding n by simp
  note t = pruning_keeps_deepest[OF validOrder_id h]
  have a: "\<forall>e \<in> set (dnsZoneMap (listenerPass exPrune)).
            fst e \<notin> zName ` set (gDNSZones (buildGraph id exPrune)) \<longleftrightarrow>
            (\<exists>Z \<in> set (gDNSZones (buildGraph id exPrune)).
               zoneDepth (fst e) < zoneDepth (zName Z) \<and> set (zNodes Z) = set (snd e))"
    using t by (rule conjunct1)
  have "\<exists>Z \<in> set (gDNSZones (buildGraph id exPrune)).
               zoneDepth (fst (''a.com'', [''d1''])) < zoneDepth (zName Z) \<and> set (zNodes Z) = set (snd (''a.com'', [''d1'']))"
    using a[rule_format, OF e] out by blast
  then have x: "\<exists>Z \<in> set (gDNSZones (buildGraph id exPrune)).
          zoneDepth ''a.com'' < zoneDepth (zName Z) \<and> set (zNodes Z) = set [''d1'']"
    by (simp only: fst_conv snd_conv)
  show ?thesis using validOrder_id h m n x by (intro conjI)
qed

subsection \<open>Claim C2: two builds of the same collection\<close>

text \<open>
  C2 as stated makes two builds of one collection identical, zone order and colours
  included. The zone slice is filled by ranging over a Go map, whose iteration order is
  not fixed, and the sort only orders by depth. For \<open>exTwoZones\<close>, whose two zones have
  depth 2, the iteration orders \<open>id\<close> and \<open>rev\<close> give the two zones in opposite orders
  and with their colours exchanged.
\<close>

theorem buildGraph_zone_order_counterexample:
  "validOrder id \<and> validOrder rev
   \<and> gDNSZones (buildGraph id exTwoZones) =
       [\<lparr>zName = ''a.com'', zNodes = [''d1''], zColor = ''#e3f2fd''\<rparr>,
        \<lparr>zName = ''b.org'', zNodes = [''d2''], zColor = ''#f3e5f5''\<rparr>]
   \<and> gDNSZones (buildGraph rev exTwoZones) =
       [\<lparr>zName = ''b.org'', zNodes = [''d2''], zColor = ''#e3f2fd''\<rparr>,
        \<lparr>zName = ''a.com'', zNodes = [''d1''], zColor = ''#f3e5f5''\<rparr>]
   \<and> buildGraph id exTwoZones \<noteq> buildGraph rev exTwoZones"
proof -
  have a: "gDNSZones (buildGraph id exTwoZones) =
       [\<lparr>zName = ''a.com'', zNodes = [''d1''], zColor = ''#e3f2fd''\<rparr>,
        \<lparr>zName = ''b.org'', zNodes = [''d2''], zColor = ''#f3e5f5''\<rparr>]" by code_simp
  have b: "gDNSZones (buildGraph rev exTwoZones) =
       [\<lparr>zName = ''b.org'', zNodes = [''d2''], zColor = ''#e3f2fd''\<rparr>,
        \<lparr>zName = ''a.com'', zNodes = [''d1''], zColor = ''#f3e5f5''\<rparr>]" by code_simp
  have "gDNSZones (buildGraph id exTwoZones) \<noteq> gDNSZones (buildGraph rev exTwoZones)"
    unfolding a b by simp
  then have c: "buildGraph id exTwoZones \<noteq> buildGraph rev exTwoZones" by auto
  show ?thesis using validOrder_id validOrder_rev a b c by (intro conjI)
qed

text \<open>
  C2, amended. For two iteration orders of the zone map, the two builds of one collection
  have the same node list and the same link list, and the same zones: the same names, each
  with the same member list. In both, the zones are ordered by depth descending, the depth
  at each position of the list is the same, and the colour at each position is the same
  (the \<open>k\<close>-th zone has the \<open>k\<close>-th colour of the palette, modulo its size). What can
  differ is the order of zones of equal depth, and so which of them has which colour.
\<close>

theorem buildGraph_same_up_to_zone_order:
  assumes "validOrder order1" "validOrder order2"
  shows "gNodes (buildGraph order1 resources) = gNodes (buildGraph order2 resources)
       \<and> gLinks (buildGraph order1 resources) = gLinks (buildGraph order2 resources)
       \<and> mset (map (\<lambda>Z. (zName Z, zNodes Z)) (gDNSZones (buildGraph order1 resources))) =
           mset (map (\<lambda>Z. (zName Z, zNodes Z)) (gDNSZones (buildGraph order2 resources)))
       \<and> map (\<lambda>Z. zoneDepth (zName Z)) (gDNSZones (buildGraph order1 resources)) =
           map (\<lambda>Z. zoneDepth (zName Z)) (gDNSZones (buildGraph order2 resources))
       \<and> sorted (rev (map (\<lambda>Z. zoneDepth (zName Z)) (gDNSZones (buildGraph order1 resources))))
       \<and> map zColor (gDNSZones (buildGraph order1 resources)) =
           map zColor (gDNSZones (buildGraph order2 resources))
       \<and> map zColor (gDNSZones (buildGraph order1 resources)) =
           map (\<lambda>i. zoneColors ! (i mod length zoneColors))
             [0 ..< length (gDNSZones (buildGraph order1 resources))]"
proof -
  let ?m = "dnsZoneMap (listenerPass resources)"
  let ?z1 = "buildZones order1 ?m" and ?z2 = "buildZones order2 ?m"
  have g1: "gDNSZones (buildGraph order1 resources) = ?z1"
    and g2: "gDNSZones (buildGraph order2 resources) = ?z2"
    by (simp_all add: buildGraph_def Let_def)
  have m1: "mset (order1 ?m) = mset ?m" and m2: "mset (order2 ?m) = mset ?m"
    using assms by (simp_all add: validOrder_def)
  have e: "mset (map (\<lambda>Z. (zName Z, zNodes Z)) ?z1) = mset (map (\<lambda>Z. (zName Z, zNodes Z)) ?z2)"
    using buildZones_entries_mset[of order1 ?m] buildZones_entries_mset[of order2 ?m] m1 m2 by simp
  have "length (map (\<lambda>Z. (zName Z, zNodes Z)) ?z1) = length (map (\<lambda>Z. (zName Z, zNodes Z)) ?z2)"
    using e by (rule mset_eq_length)
  then have len: "length ?z1 = length ?z2" by simp
  have "image_mset (\<lambda>e. - int (zoneDepth (fst e))) (mset (map (\<lambda>Z. (zName Z, zNodes Z)) ?z1)) =
        image_mset (\<lambda>e. - int (zoneDepth (fst e))) (mset (map (\<lambda>Z. (zName Z, zNodes Z)) ?z2))"
    using e by simp
  then have "mset (map (\<lambda>Z. - int (zoneDepth (zName Z))) ?z1) = mset (map (\<lambda>Z. - int (zoneDepth (zName Z))) ?z2)"
    by (simp add: o_def image_mset.compositionality)
  then have d: "map (\<lambda>Z. - int (zoneDepth (zName Z))) ?z1 = map (\<lambda>Z. - int (zoneDepth (zName Z))) ?z2"
    by (intro sorted_same_mset buildZones_sorted)
  have "map (\<lambda>i. nat (- i)) (map (\<lambda>Z. - int (zoneDepth (zName Z))) ?z1) =
        map (\<lambda>i. nat (- i)) (map (\<lambda>Z. - int (zoneDepth (zName Z))) ?z2)"
    using d by simp
  then have dep: "map (\<lambda>Z. zoneDepth (zName Z)) ?z1 = map (\<lambda>Z. zoneDepth (zName Z)) ?z2"
    by (simp add: o_def)
  have "sorted (map (\<lambda>Z. - int (zoneDepth (zName Z))) ?z1)" by (rule buildZones_sorted)
  then have srt: "sorted (rev (map (\<lambda>Z. zoneDepth (zName Z)) ?z1))"
    by (rule sorted_neg_rev)
  have col: "map zColor ?z1 = map zColor ?z2"
    using buildZones_colors[of order1 ?m] buildZones_colors[of order2 ?m] len by simp
  have nl: "gNodes (buildGraph order1 resources) = gNodes (buildGraph order2 resources)"
       "gLinks (buildGraph order1 resources) = gLinks (buildGraph order2 resources)"
    by (simp_all add: buildGraph_def Let_def)
  show ?thesis unfolding g1 g2 using nl[unfolded g1 g2] e dep srt col buildZones_colors[of order1 ?m]
    by (intro conjI)
qed

text \<open>The witness: \<open>exTwoZones\<close> under the orders \<open>id\<close> and \<open>rev\<close>.\<close>

theorem buildGraph_same_up_to_zone_order_witness:
  "validOrder id \<and> validOrder rev
   \<and> gNodes (buildGraph id exTwoZones) = gNodes (buildGraph rev exTwoZones)
   \<and> gLinks (buildGraph id exTwoZones) = gLinks (buildGraph rev exTwoZones)
   \<and> mset (map (\<lambda>Z. (zName Z, zNodes Z)) (gDNSZones (buildGraph id exTwoZones))) =
       mset (map (\<lambda>Z. (zName Z, zNodes Z)) (gDNSZones (buildGraph rev exTwoZones)))
   \<and> map (\<lambda>Z. zoneDepth (zName Z)) (gDNSZones (buildGraph id exTwoZones)) = [2, 2]
   \<and> map (\<lambda>Z. zoneDepth (zName Z)) (gDNSZones (buildGraph rev exTwoZones)) = [2, 2]
   \<and> map zColor (gDNSZones (buildGraph id exTwoZones)) = map zColor (gDNSZones (buildGraph rev exTwoZones))"
proof -
  note t = buildGraph_same_up_to_zone_order[OF validOrder_id validOrder_rev, of exTwoZones]
  have d: "map (\<lambda>Z. zoneDepth (zName Z)) (gDNSZones (buildGraph id exTwoZones)) = [2, 2]" by code_simp
  have d2: "map (\<lambda>Z. zoneDepth (zName Z)) (gDNSZones (buildGraph rev exTwoZones)) = [2, 2]"
    using t d by simp
  show ?thesis using validOrder_id validOrder_rev t d d2 by simp
qed

end
